theory Spec2Isabelle
  imports Main "HOL-Library.Word"
begin

unbundle bit_operations_syntax

section \<open>The lock-free queue (package \<open>lock_free_queue\<close>)\<close>

subsection \<open>Nodes, pointers and the store\<close>

text \<open>
  An \<open>unsafe.Pointer\<close> is either nil or the address of a node. Nodes live in a store
  that only grows (Go is garbage collected: a node is never freed while it can still be
  referenced), so the store is the list of all nodes allocated so far and an address is
  an index into it. Address \<open>0\<close> is the \<open>dummy\<close> field embedded in the queue.
  Dereferencing nil panics in Go; an address outside the store cannot arise in Go, and is
  a panic of its own here so that the model is total. The type \<open>panic\<close> lists the ways a
  call of the three packages can end other than by returning: the run-time panics of Go,
  the explicit \<open>panic("...")\<close> calls of the source, and the fatal errors of \<open>sync\<close>.
\<close>

type_synonym ptr = "nat option"

record 'a qNode =
  val :: 'a
  "next" :: ptr

record 'a LockFreeQueue =
  lfq_head :: ptr
  lfq_tail :: ptr
  lfq_nodes :: "'a qNode list"

datatype panic =
    NilPointerDereference
  | InvalidAddress
  | IndexOutOfRange
  | SliceBoundsOutOfRange
  | MakesliceLenOutOfRange
  | Explicit string
  | FatalError string

definition deref :: "'a LockFreeQueue \<Rightarrow> ptr \<Rightarrow> panic + 'a qNode" where
  "deref q p =
     (case p of
        None \<Rightarrow> Inl NilPointerDereference
      | Some a \<Rightarrow> if a < length (lfq_nodes q) then Inr (lfq_nodes q ! a) else Inl InvalidAddress)"

subsection \<open>The atomic primitives of \<open>sync/atomic\<close>, as the queue uses them\<close>

text \<open>\<open>atomic.LoadPointer(&rh.next)\<close>\<close>

definition LoadPointer_next :: "'a LockFreeQueue \<Rightarrow> ptr \<Rightarrow> panic + ptr" where
  "LoadPointer_next q p = (case deref q p of Inl f \<Rightarrow> Inl f | Inr nd \<Rightarrow> Inr (next nd))"

text \<open>\<open>atomic.CompareAndSwapPointer(&queue.head, old, new)\<close>\<close>

definition CompareAndSwapPointer_head ::
  "'a LockFreeQueue \<Rightarrow> ptr \<Rightarrow> ptr \<Rightarrow> 'a LockFreeQueue \<times> bool" where
  "CompareAndSwapPointer_head q old new =
     (if lfq_head q = old then (q\<lparr>lfq_head := new\<rparr>, True) else (q, False))"

text \<open>\<open>atomic.CompareAndSwapPointer(&rt.next, old, new)\<close>\<close>

definition CompareAndSwapPointer_next ::
  "'a LockFreeQueue \<Rightarrow> ptr \<Rightarrow> ptr \<Rightarrow> ptr \<Rightarrow> panic + ('a LockFreeQueue \<times> bool)" where
  "CompareAndSwapPointer_next q p old new =
     (case deref q p of
        Inl f \<Rightarrow> Inl f
      | Inr nd \<Rightarrow>
          if next nd = old
          then Inr (q\<lparr>lfq_nodes := (lfq_nodes q)[the p := nd\<lparr>next := new\<rparr>]\<rparr>, True)
          else Inr (q, False))"

text \<open>\<open>atomic.StorePointer(&queue.tail, new)\<close>\<close>

definition StorePointer_tail :: "'a LockFreeQueue \<Rightarrow> ptr \<Rightarrow> 'a LockFreeQueue" where
  "StorePointer_tail q new = q\<lparr>lfq_tail := new\<rparr>"

text \<open>\<open>&qNode[T]{val: val}\<close>: a new node at a fresh address, successor nil.\<close>

definition new_qNode :: "'a LockFreeQueue \<Rightarrow> 'a \<Rightarrow> 'a LockFreeQueue \<times> nat" where
  "new_qNode q v =
     (q\<lparr>lfq_nodes := lfq_nodes q @ [\<lparr>val = v, next = None\<rparr>]\<rparr>, length (lfq_nodes q))"

subsection \<open>\<open>NewQueue\<close>, \<open>Pop\<close> and \<open>Push\<close> for one caller at a time\<close>

text \<open>
  The zero value of the element type \<open>T\<close> is a parameter \<open>z\<close>: it is the payload of
  the dummy node and what \<open>Pop\<close> returns with \<open>false\<close>.
\<close>

definition lfq_NewQueue :: "'a \<Rightarrow> 'a LockFreeQueue" where
  "lfq_NewQueue z =
     \<lparr>lfq_head = Some 0, lfq_tail = Some 0, lfq_nodes = [\<lparr>val = z, next = None\<rparr>]\<rparr>"

text \<open>
  The \<open>for\<close> loops of \<open>Pop\<close> and \<open>Push\<close> have no bound, so the functions are partial:
  \<open>None\<close> is a loop that never exits, \<open>Some (Inl f)\<close> a panic, \<open>Some (Inr r)\<close> a return.
\<close>

partial_function (option) lfq_Pop ::
  "'a \<Rightarrow> 'a LockFreeQueue \<Rightarrow> (panic + ('a \<times> bool) \<times> 'a LockFreeQueue) option" where
  "lfq_Pop z q =
     (let h = lfq_head q in
      case LoadPointer_next q h of
        Inl f \<Rightarrow> Some (Inl f)
      | Inr n \<Rightarrow>
          if n \<noteq> None then
            (case deref q h of
               Inl f \<Rightarrow> Some (Inl f)
             | Inr rh \<Rightarrow>
                 (case CompareAndSwapPointer_head q h (next rh) of
                    (q', swapped) \<Rightarrow>
                      if swapped then
                        (case deref q' n of
                           Inl f \<Rightarrow> Some (Inl f)
                         | Inr nd \<Rightarrow> Some (Inr ((val nd, True), q')))
                      else lfq_Pop z q'))
          else Some (Inr ((z, False), q)))"

partial_function (option) lfq_Push_loop ::
  "'a LockFreeQueue \<Rightarrow> nat \<Rightarrow> (panic + 'a LockFreeQueue) option" where
  "lfq_Push_loop q node =
     (let rt = lfq_tail q in
      case CompareAndSwapPointer_next q rt None (Some node) of
        Inl f \<Rightarrow> Some (Inl f)
      | Inr (q', swapped) \<Rightarrow>
          if swapped then Some (Inr (StorePointer_tail q' (Some node)))
          else lfq_Push_loop q' node)"

definition lfq_Push :: "'a LockFreeQueue \<Rightarrow> 'a \<Rightarrow> (panic + 'a LockFreeQueue) option" where
  "lfq_Push q v = (case new_qNode q v of (q', node) \<Rightarrow> lfq_Push_loop q' node)"

subsection \<open>The queue as a list of values\<close>

text \<open>
  \<open>chain ns k p\<close> follows the \<open>next\<close> links from \<open>p\<close> for at most \<open>k\<close> nodes and
  returns the addresses visited if nil is reached. A chain without a cycle visits every
  node of the store at most once, so \<open>lfq_chain\<close> gives it as many steps as the store has
  nodes. The first node of the chain from \<open>head\<close> is the sentinel; the values of the
  others are the elements of the queue, oldest first.
\<close>

fun chain :: "'a qNode list \<Rightarrow> nat \<Rightarrow> ptr \<Rightarrow> nat list option" where
  "chain ns k None = Some []"
| "chain ns 0 (Some a) = None"
| "chain ns (Suc k) (Some a) =
     (if a < length ns then map_option ((#) a) (chain ns k (next (ns ! a))) else None)"

definition lfq_chain :: "'a LockFreeQueue \<Rightarrow> nat list option" where
  "lfq_chain q = chain (lfq_nodes q) (length (lfq_nodes q)) (lfq_head q)"

definition lfq_elems :: "'a LockFreeQueue \<Rightarrow> 'a list" where
  "lfq_elems q =
     (case lfq_chain q of None \<Rightarrow> [] | Some as \<Rightarrow> map (\<lambda>a. val (lfq_nodes q ! a)) (tl as))"

text \<open>The queue is empty when the successor of the node at \<open>head\<close> is nil.\<close>

definition lfq_empty :: "'a LockFreeQueue \<Rightarrow> bool" where
  "lfq_empty q = (LoadPointer_next q (lfq_head q) = Inr None)"

text \<open>
  The structure one caller at a time maintains: the nodes from \<open>head\<close> form a chain that
  ends in nil, the chain has a first node (\<open>head\<close> is not nil), and \<open>tail\<close> is its last.
\<close>

definition lfq_inv :: "'a LockFreeQueue \<Rightarrow> bool" where
  "lfq_inv q =
     (case lfq_chain q of
        None \<Rightarrow> False
      | Some as \<Rightarrow> as \<noteq> [] \<and> lfq_tail q = Some (last as))"


text \<open>The relational form of \<open>chain\<close>, for the proofs.\<close>

primrec linked :: "'a qNode list \<Rightarrow> ptr \<Rightarrow> nat list \<Rightarrow> bool" where
  "linked ns p [] = (p = None)"
| "linked ns p (a # as) = (p = Some a \<and> a < length ns \<and> linked ns (next (ns ! a)) as)"

text \<open>A sequence of calls made by one caller, each finished before the next begins.\<close>

datatype 'a lfq_call = CallPush 'a | CallPop

fun lfq_calls ::
  "'a \<Rightarrow> 'a lfq_call list \<Rightarrow> 'a LockFreeQueue \<Rightarrow>
     (panic + ('a \<times> bool) list \<times> 'a LockFreeQueue) option" where
  "lfq_calls z [] q = Some (Inr ([], q))"
| "lfq_calls z (CallPush v # cs) q =
     (case lfq_Push q v of
        None \<Rightarrow> None
      | Some (Inl f) \<Rightarrow> Some (Inl f)
      | Some (Inr q') \<Rightarrow> lfq_calls z cs q')"
| "lfq_calls z (CallPop # cs) q =
     (case lfq_Pop z q of
        None \<Rightarrow> None
      | Some (Inl f) \<Rightarrow> Some (Inl f)
      | Some (Inr (r, q')) \<Rightarrow>
          (case lfq_calls z cs q' of
             None \<Rightarrow> None
           | Some (Inl f) \<Rightarrow> Some (Inl f)
           | Some (Inr (rs, q'')) \<Rightarrow> Some (Inr (r # rs, q''))))"

subsection \<open>Concurrent callers\<close>

text \<open>
  Under concurrent callers a call is not one transition: other goroutines run between
  its accesses to the shared cursors and nodes. A \<open>frame\<close> is a goroutine's position in a
  call together with its local variables, and \<open>lfq_step\<close> performs the one access to
  shared memory that comes next (every such access of the source is sequentially
  consistent). The frames follow the source of \<open>Push\<close> (\<open>node\<close>, \<open>rt\<close>) and \<open>Pop\<close>
  (\<open>h\<close>, \<open>n\<close>, and the value of the argument \<open>rh.next\<close> of the compare-and-swap).
\<close>

datatype 'a frame =
    Idle
  | PushNew 'a
  | PushLoadTail nat
  | PushCAS nat ptr
  | PushStore nat
  | PushDone
  | PopLoadHead
  | PopLoadNext ptr
  | PopReadNext ptr ptr
  | PopCAS ptr ptr ptr
  | PopReadVal ptr
  | PopDone 'a bool
  | Panicked panic

fun lfq_step :: "'a \<Rightarrow> 'a LockFreeQueue \<Rightarrow> 'a frame \<Rightarrow> 'a LockFreeQueue \<times> 'a frame" where
  "lfq_step z q Idle = (q, Idle)"
| "lfq_step z q (PushNew v) = (case new_qNode q v of (q', node) \<Rightarrow> (q', PushLoadTail node))"
| "lfq_step z q (PushLoadTail node) = (q, PushCAS node (lfq_tail q))"
| "lfq_step z q (PushCAS node rt) =
     (case CompareAndSwapPointer_next q rt None (Some node) of
        Inl f \<Rightarrow> (q, Panicked f)
      | Inr (q', swapped) \<Rightarrow>
          if swapped then (q', PushStore node) else (q', PushLoadTail node))"
| "lfq_step z q (PushStore node) = (StorePointer_tail q (Some node), PushDone)"
| "lfq_step z q PushDone = (q, PushDone)"
| "lfq_step z q PopLoadHead = (q, PopLoadNext (lfq_head q))"
| "lfq_step z q (PopLoadNext h) =
     (case LoadPointer_next q h of
        Inl f \<Rightarrow> (q, Panicked f)
      | Inr n \<Rightarrow> if n \<noteq> None then (q, PopReadNext h n) else (q, PopDone z False))"
| "lfq_step z q (PopReadNext h n) =
     (case deref q h of
        Inl f \<Rightarrow> (q, Panicked f)
      | Inr rh \<Rightarrow> (q, PopCAS h n (next rh)))"
| "lfq_step z q (PopCAS h n new) =
     (case CompareAndSwapPointer_head q h new of
        (q', swapped) \<Rightarrow> if swapped then (q', PopReadVal n) else (q', PopLoadHead))"
| "lfq_step z q (PopReadVal n) =
     (case deref q n of
        Inl f \<Rightarrow> (q, Panicked f)
      | Inr nd \<Rightarrow> (q, PopDone (val nd) True))"
| "lfq_step z q (PopDone v found) = (q, PopDone v found)"
| "lfq_step z q (Panicked f) = (q, Panicked f)"

text \<open>
  A goroutine that is in no call (it has not called yet, or its last call has returned)
  may begin one; a goroutine in a call may take its next step. A schedule is the list of
  these events in the order in which they happen.
\<close>

definition returned :: "'a frame \<Rightarrow> bool" where
  "returned f = (case f of Idle \<Rightarrow> True | PushDone \<Rightarrow> True | PopDone v found \<Rightarrow> True | _ \<Rightarrow> False)"

datatype 'a event = Begin nat "'a lfq_call" | Step nat

fun lfq_event ::
  "'a \<Rightarrow> 'a LockFreeQueue \<times> 'a frame list \<Rightarrow> 'a event \<Rightarrow> 'a LockFreeQueue \<times> 'a frame list" where
  "lfq_event z (q, fs) (Begin i c) =
     (if i < length fs \<and> returned (fs ! i)
      then (q, fs[i := (case c of CallPush v \<Rightarrow> PushNew v | CallPop \<Rightarrow> PopLoadHead)])
      else (q, fs))"
| "lfq_event z (q, fs) (Step i) =
     (if i < length fs
      then (case lfq_step z q (fs ! i) of (q', f') \<Rightarrow> (q', fs[i := f']))
      else (q, fs))"

definition lfq_exec ::
  "'a \<Rightarrow> 'a event list \<Rightarrow> 'a LockFreeQueue \<times> 'a frame list \<Rightarrow> 'a LockFreeQueue \<times> 'a frame list" where
  "lfq_exec z evs c = foldl (lfq_event z) c evs"

definition lfq_start :: "'a \<Rightarrow> nat \<Rightarrow> 'a LockFreeQueue \<times> 'a frame list" where
  "lfq_start z k = (lfq_NewQueue z, replicate k Idle)"

text \<open>
  What holds of the queue in every state that concurrent callers can reach. The chain
  from \<open>head\<close> ends in nil and has a first node; \<open>tail\<close> references a node of the chain
  that starts at the dummy node (address 0), which holds every node ever linked.
\<close>

definition lfq_head_ok :: "'a LockFreeQueue \<Rightarrow> bool" where
  "lfq_head_ok q = (case lfq_chain q of None \<Rightarrow> False | Some as \<Rightarrow> as \<noteq> [])"

definition lfq_tail_linked :: "'a LockFreeQueue \<Rightarrow> bool" where
  "lfq_tail_linked q =
     (case chain (lfq_nodes q) (length (lfq_nodes q)) (Some 0) of
        None \<Rightarrow> False
      | Some as \<Rightarrow> (case lfq_tail q of None \<Rightarrow> False | Some t \<Rightarrow> t \<in> set as))"

text \<open>
  \<open>tail\<close> references the last node that has been linked (its successor is nil) or the
  node before it (its successor is the last node): it is at most one node behind.
\<close>

definition lfq_tail_lag :: "'a LockFreeQueue \<Rightarrow> bool" where
  "lfq_tail_lag q =
     (case lfq_tail q of
        None \<Rightarrow> False
      | Some t \<Rightarrow>
          t < length (lfq_nodes q)
          \<and> (case next (lfq_nodes q ! t) of
                None \<Rightarrow> True
              | Some n \<Rightarrow> n < length (lfq_nodes q) \<and> next (lfq_nodes q ! n) = None))"

text \<open>
  \<open>storing f\<close> is the node of a push that has linked its node and has not yet stored
  \<open>tail\<close>; \<open>pnode f\<close> is the node of a push that has not yet linked it.
\<close>

fun storing :: "'a frame \<Rightarrow> nat option" where
  "storing (PushStore node) = Some node"
| "storing _ = None"

fun pnode :: "'a frame \<Rightarrow> nat option" where
  "pnode (PushLoadTail node) = Some node"
| "pnode (PushCAS node rt) = Some node"
| "pnode _ = None"

text \<open>
  The invariant of the concurrent system, for the proofs: \<open>as\<close> is the chain from the
  dummy node; \<open>frame_ok\<close> says what a goroutine's local variables have to do with it.
\<close>

fun frame_ok :: "'a qNode list \<Rightarrow> ptr \<Rightarrow> nat list \<Rightarrow> 'a frame \<Rightarrow> bool" where
  "frame_ok ns t as (PushLoadTail node) =
     (node < length ns \<and> node \<notin> set as \<and> next (ns ! node) = None)"
| "frame_ok ns t as (PushCAS node rt) =
     (node < length ns \<and> node \<notin> set as \<and> next (ns ! node) = None
      \<and> (\<exists>r \<in> set as. rt = Some r \<and> (r = last as \<longrightarrow> t = Some r)))"
| "frame_ok ns t as (PushStore node) =
     (node = last as \<and> 2 \<le> length as \<and> t = Some (last (butlast as)))"
| "frame_ok ns t as (PopLoadNext h) = (\<exists>a \<in> set as. h = Some a)"
| "frame_ok ns t as (PopReadNext h n) =
     (\<exists>a \<in> set as. h = Some a \<and> n \<noteq> None \<and> next (ns ! a) = n)"
| "frame_ok ns t as (PopCAS h n new) =
     (\<exists>a \<in> set as. h = Some a \<and> n \<noteq> None \<and> next (ns ! a) = n \<and> new = n)"
| "frame_ok ns t as (PopReadVal n) = (\<exists>b \<in> set as. n = Some b)"
| "frame_ok ns t as (Panicked f) = False"
| "frame_ok ns t as Idle = True"
| "frame_ok ns t as (PushNew v) = True"
| "frame_ok ns t as PushDone = True"
| "frame_ok ns t as PopLoadHead = True"
| "frame_ok ns t as (PopDone v found) = True"

definition lfq_cinv :: "nat list \<Rightarrow> 'a LockFreeQueue \<times> 'a frame list \<Rightarrow> bool" where
  "lfq_cinv as c =
     (case c of (q, fs) \<Rightarrow>
        linked (lfq_nodes q) (Some 0) as
      \<and> (\<exists>h \<in> set as. lfq_head q = Some h)
      \<and> (\<forall>i < length fs. frame_ok (lfq_nodes q) (lfq_tail q) as (fs ! i))
      \<and> (\<forall>i < length fs. \<forall>j < length fs. i \<noteq> j \<longrightarrow> storing (fs ! i) = None \<or> storing (fs ! j) = None)
      \<and> (\<forall>i < length fs. \<forall>j < length fs. i \<noteq> j \<longrightarrow> pnode (fs ! i) \<noteq> None \<longrightarrow> pnode (fs ! i) \<noteq> pnode (fs ! j))
      \<and> ((\<forall>i < length fs. storing (fs ! i) = None) \<longrightarrow> lfq_tail q = Some (last as)))"

section \<open>The ring-buffer queue (package \<open>queue\<close>, \<open>queue.go\<close>)\<close>

subsection \<open>The reader/writer lock\<close>

text \<open>
  \<open>sync.RWMutex\<close> belongs to the Go library. Its state is the number of read locks held
  and whether the write lock is held. \<open>RLock\<close> waits while the write lock is held and
  \<open>Lock\<close> waits while any lock is held: the result \<open>None\<close> is a caller that waits. The
  two unlock operations are fatal errors on a lock that is not held.
\<close>

record RWMutex =
  readers :: nat
  writer :: bool

definition RLock :: "RWMutex \<Rightarrow> RWMutex option" where
  "RLock m = (if writer m then None else Some (m\<lparr>readers := readers m + 1\<rparr>))"

definition RUnlock :: "RWMutex \<Rightarrow> panic + RWMutex" where
  "RUnlock m =
     (if readers m = 0 then Inl (FatalError ''sync: RUnlock of unlocked RWMutex'')
      else Inr (m\<lparr>readers := readers m - 1\<rparr>))"

definition Lock :: "RWMutex \<Rightarrow> RWMutex option" where
  "Lock m = (if writer m \<or> readers m > 0 then None else Some (m\<lparr>writer := True\<rparr>))"

definition Unlock :: "RWMutex \<Rightarrow> panic + RWMutex" where
  "Unlock m =
     (if \<not> writer m then Inl (FatalError ''sync: Unlock of unlocked RWMutex'')
      else Inr (m\<lparr>writer := False\<rparr>))"

definition unlocked :: "RWMutex \<Rightarrow> bool" where
  "unlocked m = (readers m = 0 \<and> \<not> writer m)"

subsection \<open>Slices\<close>

text \<open>
  Every buffer of the queue comes from \<open>make([]T, n)\<close>, so its capacity is its length
  and a slice is a list. Go's \<open>int\<close> is modelled by \<open>int\<close>: the indices and counts of the
  queue are bounded by the length of a slice that fits in memory, far from \<open>2^63\<close>.
\<close>

definition make_slice :: "'a \<Rightarrow> int \<Rightarrow> panic + 'a list" where
  "make_slice z n = (if n < 0 then Inl MakesliceLenOutOfRange else Inr (replicate (nat n) z))"

text \<open>\<open>s[lo:hi]\<close>\<close>

definition slice :: "'a list \<Rightarrow> int \<Rightarrow> int \<Rightarrow> panic + 'a list" where
  "slice s lo hi =
     (if 0 \<le> lo \<and> lo \<le> hi \<and> hi \<le> int (length s)
      then Inr (take (nat (hi - lo)) (drop (nat lo) s))
      else Inl SliceBoundsOutOfRange)"

text \<open>\<open>s[i]\<close>\<close>

definition index :: "'a list \<Rightarrow> int \<Rightarrow> panic + 'a" where
  "index s i = (if 0 \<le> i \<and> i < int (length s) then Inr (s ! nat i) else Inl IndexOutOfRange)"

text \<open>\<open>copy(dst, src)\<close>: the updated \<open>dst\<close> and the number of elements copied.\<close>

definition copy :: "'a list \<Rightarrow> 'a list \<Rightarrow> 'a list \<times> nat" where
  "copy dst src =
     (let n = min (length dst) (length src) in (take n src @ drop n dst, n))"

subsection \<open>The queue\<close>

definition minQueueLen :: int where
  "minQueueLen = 16"

record 'a Queue =
  rq_buf :: "'a list"
  rq_head :: int
  rq_tail :: int
  rq_count :: int
  rq_lock :: RWMutex

text \<open>
  A call ends by returning a value, by a panic, or it waits for the lock for ever (no
  other goroutine is there to release it).
\<close>

datatype 'r outcome = Return 'r | Panic panic | Waits

definition rq_NewQueue :: "'a \<Rightarrow> 'a Queue" where
  "rq_NewQueue z =
     \<lparr>rq_buf = replicate (nat minQueueLen) z, rq_head = 0, rq_tail = 0, rq_count = 0,
      rq_lock = \<lparr>readers = 0, writer = False\<rparr>\<rparr>"

definition rq_Size :: "'a Queue \<Rightarrow> int outcome \<times> 'a Queue" where
  "rq_Size q =
     (case RLock (rq_lock q) of
        None \<Rightarrow> (Waits, q)
      | Some l \<Rightarrow>
          let q1 = q\<lparr>rq_lock := l\<rparr>;
              count = rq_count q1
          in case RUnlock (rq_lock q1) of
               Inl e \<Rightarrow> (Panic e, q1)
             | Inr l' \<Rightarrow> (Return count, q1\<lparr>rq_lock := l'\<rparr>))"

definition rq_Empty :: "'a Queue \<Rightarrow> bool outcome \<times> 'a Queue" where
  "rq_Empty q =
     (case rq_Size q of
        (Return n, q') \<Rightarrow> (Return (n = 0), q')
      | (Panic e, q') \<Rightarrow> (Panic e, q')
      | (Waits, q') \<Rightarrow> (Waits, q'))"

definition rq_resize :: "'a \<Rightarrow> 'a Queue \<Rightarrow> panic + 'a Queue" where
  "rq_resize z q =
     (case make_slice z (push_bit 1 (rq_count q)) of
        Inl e \<Rightarrow> Inl e
      | Inr newBuf \<Rightarrow>
          (case
             (if rq_tail q > rq_head q then
                (case slice (rq_buf q) (rq_head q) (rq_tail q) of
                   Inl e \<Rightarrow> Inl e
                 | Inr src \<Rightarrow> Inr (fst (copy newBuf src)))
              else
                (case slice (rq_buf q) (rq_head q) (int (length (rq_buf q))) of
                   Inl e \<Rightarrow> Inl e
                 | Inr src \<Rightarrow>
                     (case copy newBuf src of
                        (newBuf1, n) \<Rightarrow>
                          (case slice (rq_buf q) 0 (rq_tail q) of
                             Inl e \<Rightarrow> Inl e
                           | Inr src2 \<Rightarrow>
                               Inr (take n newBuf1 @ fst (copy (drop n newBuf1) src2))))))
           of
             Inl e \<Rightarrow> Inl e
           | Inr newBuf' \<Rightarrow>
               Inr (q\<lparr>rq_head := 0, rq_tail := rq_count q, rq_buf := newBuf'\<rparr>)))"

definition rq_Push :: "'a \<Rightarrow> 'a \<Rightarrow> 'a Queue \<Rightarrow> unit outcome \<times> 'a Queue" where
  "rq_Push z elem q =
     (case Lock (rq_lock q) of
        None \<Rightarrow> (Waits, q)
      | Some l \<Rightarrow>
          let q1 = q\<lparr>rq_lock := l\<rparr> in
          (case (if rq_count q1 = int (length (rq_buf q1)) then rq_resize z q1 else Inr q1) of
             Inl e \<Rightarrow> (Panic e, q1)
           | Inr q2 \<Rightarrow>
               (case index (rq_buf q2) (rq_tail q2) of
                  Inl e \<Rightarrow> (Panic e, q2)
                | Inr _ \<Rightarrow>
                    let q3 = q2\<lparr>rq_buf := (rq_buf q2)[nat (rq_tail q2) := elem]\<rparr>;
                        q4 = q3\<lparr>rq_tail := (rq_tail q3 + 1) AND (int (length (rq_buf q3)) - 1)\<rparr>;
                        q5 = q4\<lparr>rq_count := rq_count q4 + 1\<rparr>
                    in (case Unlock (rq_lock q5) of
                          Inl e \<Rightarrow> (Panic e, q5)
                        | Inr l' \<Rightarrow> (Return (), q5\<lparr>rq_lock := l'\<rparr>)))))"

definition rq_Peek :: "'a Queue \<Rightarrow> 'a outcome \<times> 'a Queue" where
  "rq_Peek q =
     (case RLock (rq_lock q) of
        None \<Rightarrow> (Waits, q)
      | Some l \<Rightarrow>
          let q1 = q\<lparr>rq_lock := l\<rparr> in
          if rq_count q1 \<le> 0 then
            (case RUnlock (rq_lock q1) of
               Inl e \<Rightarrow> (Panic e, q1)
             | Inr l' \<Rightarrow>
                 (Panic (Explicit ''queue: Peek() called on empty queue''), q1\<lparr>rq_lock := l'\<rparr>))
          else
            (case index (rq_buf q1) (rq_head q1) of
               Inl e \<Rightarrow> (Panic e, q1)
             | Inr v \<Rightarrow>
                 (case RUnlock (rq_lock q1) of
                    Inl e \<Rightarrow> (Panic e, q1)
                  | Inr l' \<Rightarrow> (Return v, q1\<lparr>rq_lock := l'\<rparr>))))"

definition rq_Get :: "int \<Rightarrow> 'a Queue \<Rightarrow> 'a outcome \<times> 'a Queue" where
  "rq_Get i q =
     (case RLock (rq_lock q) of
        None \<Rightarrow> (Waits, q)
      | Some l \<Rightarrow>
          let q1 = q\<lparr>rq_lock := l\<rparr>;
              i1 = (if i < 0 then i + rq_count q1 else i)
          in
          if i1 < 0 \<or> i1 \<ge> rq_count q1 then
            (case RUnlock (rq_lock q1) of
               Inl e \<Rightarrow> (Panic e, q1)
             | Inr l' \<Rightarrow>
                 (Panic (Explicit ''queue: Get() called with index out of range''),
                  q1\<lparr>rq_lock := l'\<rparr>))
          else
            (case index (rq_buf q1) ((rq_head q1 + i1) AND (int (length (rq_buf q1)) - 1)) of
               Inl e \<Rightarrow> (Panic e, q1)
             | Inr v \<Rightarrow>
                 (case RUnlock (rq_lock q1) of
                    Inl e \<Rightarrow> (Panic e, q1)
                  | Inr l' \<Rightarrow> (Return v, q1\<lparr>rq_lock := l'\<rparr>))))"

definition rq_Pop :: "'a \<Rightarrow> 'a Queue \<Rightarrow> ('a \<times> bool) outcome \<times> 'a Queue" where
  "rq_Pop z q =
     (case Lock (rq_lock q) of
        None \<Rightarrow> (Waits, q)
      | Some l \<Rightarrow>
          let q1 = q\<lparr>rq_lock := l\<rparr> in
          if rq_count q1 \<le> 0 then
            (case Unlock (rq_lock q1) of
               Inl e \<Rightarrow> (Panic e, q1)
             | Inr l' \<Rightarrow> (Return (z, False), q1\<lparr>rq_lock := l'\<rparr>))
          else
            (case index (rq_buf q1) (rq_head q1) of
               Inl e \<Rightarrow> (Panic e, q1)
             | Inr ret \<Rightarrow>
                 let q2 = q1\<lparr>rq_head := (rq_head q1 + 1) AND (int (length (rq_buf q1)) - 1)\<rparr>;
                     q3 = q2\<lparr>rq_count := rq_count q2 - 1\<rparr>
                 in
                 (case
                    (if int (length (rq_buf q3)) > minQueueLen
                        \<and> push_bit 2 (rq_count q3) = int (length (rq_buf q3))
                     then rq_resize z q3 else Inr q3)
                  of
                    Inl e \<Rightarrow> (Panic e, q3)
                  | Inr q4 \<Rightarrow>
                      (case Unlock (rq_lock q4) of
                         Inl e \<Rightarrow> (Panic e, q4)
                       | Inr l' \<Rightarrow> (Return (ret, True), q4\<lparr>rq_lock := l'\<rparr>)))))"

text \<open>
  One \<open>for\<close> loop of \<open>Index\<close>: \<open>for i := i; i < hi; i++\<close>, comparing \<open>buf[i]\<close> with \<open>val\<close> and
  counting in \<open>idx\<close>. \<open>Inr (True, idx)\<close> is the \<open>return idx\<close> inside the loop,
  \<open>Inr (False, idx)\<close> the end of the loop with the count it has reached.
\<close>

function rq_scan :: "'a list \<Rightarrow> 'a \<Rightarrow> int \<Rightarrow> int \<Rightarrow> int \<Rightarrow> panic + bool \<times> int" where
  "rq_scan buf v i hi idx =
     (if i < hi then
        (case index buf i of
           Inl e \<Rightarrow> Inl e
         | Inr x \<Rightarrow> if x = v then Inr (True, idx) else rq_scan buf v (i + 1) hi (idx + 1))
      else Inr (False, idx))"
  by pat_completeness auto
termination
  by (relation "measure (\<lambda>(buf, v, i, hi, idx). nat (hi - i))") auto

declare rq_scan.simps [simp del]

definition rq_Index :: "'a \<Rightarrow> 'a Queue \<Rightarrow> int outcome \<times> 'a Queue" where
  "rq_Index v q =
     (case RLock (rq_lock q) of
        None \<Rightarrow> (Waits, q)
      | Some l \<Rightarrow>
          let q1 = q\<lparr>rq_lock := l\<rparr> in
          if rq_count q1 \<le> 0 then (Return (- 1), q1)
          else
            (case
               (if rq_tail q1 > rq_head q1 then rq_scan (rq_buf q1) v (rq_head q1) (rq_tail q1) 0
                else
                  (case rq_scan (rq_buf q1) v (rq_head q1) (int (length (rq_buf q1))) 0 of
                     Inl e \<Rightarrow> Inl e
                   | Inr (found, idx) \<Rightarrow>
                       if found then Inr (True, idx)
                       else rq_scan (rq_buf q1) v 0 (rq_tail q1) idx))
             of
               Inl e \<Rightarrow> (Panic e, q1)
             | Inr (found, idx) \<Rightarrow>
                 (case RUnlock (rq_lock q1) of
                    Inl e \<Rightarrow> (Panic e, q1)
                  | Inr l' \<Rightarrow> (Return (if found then idx else - 1), q1\<lparr>rq_lock := l'\<rparr>))))"

text \<open>\<open>ring buf h c\<close>: the \<open>c\<close> slots of \<open>buf\<close> from position \<open>h\<close> on, around the end.\<close>

definition ring :: "'a list \<Rightarrow> nat \<Rightarrow> nat \<Rightarrow> 'a list" where
  "ring buf h c = map (\<lambda>i. buf ! ((h + i) mod length buf)) [0 ..< c]"

text \<open>The elements of the queue, oldest first: \<open>count\<close> slots of the ring from \<open>head\<close> on.\<close>

definition rq_elems :: "'a Queue \<Rightarrow> 'a list" where
  "rq_elems q =
     map (\<lambda>i. rq_buf q ! (nat ((rq_head q + int i) mod int (length (rq_buf q)))))
       [0 ..< nat (rq_count q)]"

fun is_pow2 :: "nat \<Rightarrow> bool" where
  "is_pow2 n = (if n \<le> 1 then n = 1 else even n \<and> is_pow2 (n div 2))"

declare is_pow2.simps [simp del]

text \<open>
  The invariant of the ring: the length of the buffer is a power of two, at least
  \<open>minQueueLen\<close>; \<open>count\<close> lies between 0 and the length; \<open>head\<close> and \<open>tail\<close> are
  positions in the buffer, \<open>tail\<close> being \<open>count\<close> slots after \<open>head\<close> around the ring.
\<close>

definition rq_inv :: "'a Queue \<Rightarrow> bool" where
  "rq_inv q =
     (is_pow2 (length (rq_buf q)) \<and> minQueueLen \<le> int (length (rq_buf q))
      \<and> 0 \<le> rq_count q \<and> rq_count q \<le> int (length (rq_buf q))
      \<and> 0 \<le> rq_head q \<and> rq_head q < int (length (rq_buf q))
      \<and> rq_tail q = (rq_head q + rq_count q) mod int (length (rq_buf q)))"

section \<open>The two-stage queue (package \<open>queue\<close>, second file)\<close>

text \<open>
  An element is an \<open>interface{}\<close>: nil (\<open>None\<close>) or a value. The two stages are slices;
  \<open>PopFront\<close> sets \<open>tail\<close> to \<open>head[:0]\<close> when it makes the old \<open>tail\<close> the new \<open>head\<close>, so
  the two slices never share an array and a slice is a list here too.
\<close>

record 'a Queue2 =
  tq_head :: "'a option list"
  tq_headPos :: int
  tq_tail :: "'a option list"

definition tq_len :: "'a Queue2 \<Rightarrow> int" where
  "tq_len q = int (length (tq_head q)) - tq_headPos q + int (length (tq_tail q))"

definition tq_Empty :: "'a Queue2 \<Rightarrow> bool" where
  "tq_Empty q = (tq_len q = 0)"

definition tq_PushBack :: "'a Queue2 \<Rightarrow> 'a option \<Rightarrow> 'a Queue2" where
  "tq_PushBack q w = q\<lparr>tq_tail := tq_tail q @ [w]\<rparr>"

definition tq_PopFront :: "'a Queue2 \<Rightarrow> panic + 'a option \<times> 'a Queue2" where
  "tq_PopFront q =
     (case
        (if tq_headPos q \<ge> int (length (tq_head q)) then
           (if length (tq_tail q) = 0 then None
            else Some (q\<lparr>tq_head := tq_tail q, tq_headPos := 0, tq_tail := []\<rparr>))
         else Some q)
      of
        None \<Rightarrow> Inr (None, q)
      | Some q1 \<Rightarrow>
          (case index (tq_head q1) (tq_headPos q1) of
             Inl e \<Rightarrow> Inl e
           | Inr w \<Rightarrow>
               Inr (w, q1\<lparr>tq_head := (tq_head q1)[nat (tq_headPos q1) := None],
                         tq_headPos := tq_headPos q1 + 1\<rparr>)))"

definition tq_PeekFront :: "'a Queue2 \<Rightarrow> panic + 'a option" where
  "tq_PeekFront q =
     (if tq_headPos q < int (length (tq_head q)) then index (tq_head q) (tq_headPos q)
      else if length (tq_tail q) > 0 then index (tq_tail q) 0
      else Inr None)"

text \<open>The elements still in the queue, front first.\<close>

definition tq_elems :: "'a Queue2 \<Rightarrow> 'a option list" where
  "tq_elems q = drop (nat (tq_headPos q)) (tq_head q) @ tq_tail q"

text \<open>A queue as the operations leave it: \<open>headPos\<close> is a position in \<open>head\<close> or its end.\<close>

definition tq_wf :: "'a Queue2 \<Rightarrow> bool" where
  "tq_wf q = (0 \<le> tq_headPos q \<and> tq_headPos q \<le> int (length (tq_head q)))"

definition tq_zero :: "'a Queue2" where
  "tq_zero = \<lparr>tq_head = [], tq_headPos = 0, tq_tail = []\<rparr>"

text \<open>
  \<open>CleanFront\<close>: the loop pops while \<open>PeekFront\<close> is not nil; \<open>cleaned\<close> is the named
  result, false at the start. Every round removes an element, so the loop ends.
\<close>

function tq_CleanFront_loop :: "bool \<Rightarrow> 'a Queue2 \<Rightarrow> panic + bool \<times> 'a Queue2" where
  "tq_CleanFront_loop cleaned q =
     (case tq_PeekFront q of
        Inl e \<Rightarrow> Inl e
      | Inr w \<Rightarrow>
          if w = None then Inr (cleaned, q)
          else (case tq_PopFront q of
                  Inl e \<Rightarrow> Inl e
                | Inr (_, q') \<Rightarrow> tq_CleanFront_loop True q'))"
  by pat_completeness auto
termination
  by (relation "measure (\<lambda>(cleaned, q). length (tq_elems q))")
     (auto simp: tq_PeekFront_def tq_PopFront_def tq_elems_def index_def split: if_splits)

definition tq_CleanFront :: "'a Queue2 \<Rightarrow> panic + bool \<times> 'a Queue2" where
  "tq_CleanFront q = tq_CleanFront_loop False q"

declare tq_CleanFront_loop.simps [simp del]

(*DEFS*)

section \<open>Properties of the lock-free queue\<close>

subsection \<open>Chains\<close>

lemma linked_unique: "linked ns p as \<Longrightarrow> linked ns p bs \<Longrightarrow> as = bs"
proof (induction as arbitrary: p bs)
  case Nil
  then show ?case by (cases bs) auto
next
  case (Cons a as)
  then show ?case by (cases bs) auto
qed

lemma linked_append: "linked ns p (as @ bs) \<Longrightarrow> \<exists>r. linked ns r bs"
  by (induction as arbitrary: p) auto

lemma linked_head_notin: "linked ns (Some a) (a # as) \<Longrightarrow> a \<notin> set as"
proof
  assume l: "linked ns (Some a) (a # as)" and m: "a \<in> set as"
  from m obtain bs cs where as: "as = bs @ a # cs" by (auto simp: in_set_conv_decomp)
  have "linked ns (Some a) ((a # bs) @ a # cs)" using l as by simp
  then obtain r where r: "linked ns r (a # cs)" using linked_append by blast
  then have "r = Some a" by simp
  with r l have "a # cs = a # as" using linked_unique by blast
  with as show False by simp
qed

lemma linked_distinct: "linked ns p as \<Longrightarrow> distinct as"
proof (induction as arbitrary: p)
  case Nil
  then show ?case by simp
next
  case (Cons a as)
  then have "a \<notin> set as" using linked_head_notin[of ns a as] by simp
  with Cons show ?case by auto
qed

lemma linked_bound: "linked ns p as \<Longrightarrow> set as \<subseteq> {..<length ns}"
  by (induction as arbitrary: p) auto

lemma linked_length: assumes "linked ns p as" shows "length as \<le> length ns"
proof -
  have "card (set as) \<le> card {..<length ns}"
    using linked_bound[OF assms] by (intro card_mono) auto
  then show ?thesis using linked_distinct[OF assms] by (simp add: distinct_card)
qed

lemma chain_linked: "chain ns k p = Some as \<Longrightarrow> linked ns p as"
  by (induction ns k p arbitrary: as rule: chain.induct) (auto split: if_splits)

lemma linked_chain: "linked ns p as \<Longrightarrow> length as \<le> k \<Longrightarrow> chain ns k p = Some as"
proof (induction ns k p arbitrary: as rule: chain.induct)
  case (1 ns k)
  then show ?case by (cases as) auto
next
  case (2 ns a)
  then show ?case by (cases as) auto
next
  case (3 ns k a)
  then show ?case by (cases as) auto
qed

lemma lfq_chain_iff: "lfq_chain q = Some as \<longleftrightarrow> linked (lfq_nodes q) (lfq_head q) as"
  unfolding lfq_chain_def using chain_linked linked_chain linked_length by blast


lemma lfq_Pop_empty:
  assumes "lfq_head q = Some h" "h < length (lfq_nodes q)" "next (lfq_nodes q ! h) = None"
  shows "lfq_Pop z q = Some (Inr ((z, False), q))"
  using assms by (subst lfq_Pop.simps) (simp add: LoadPointer_next_def deref_def)

lemma lfq_Pop_nonempty:
  assumes "lfq_head q = Some h" "h < length (lfq_nodes q)" "next (lfq_nodes q ! h) = Some n"
    "n < length (lfq_nodes q)"
  shows "lfq_Pop z q = Some (Inr ((val (lfq_nodes q ! n), True), q\<lparr>lfq_head := Some n\<rparr>))"
  using assms
  by (subst lfq_Pop.simps)
     (simp add: LoadPointer_next_def deref_def CompareAndSwapPointer_head_def)

lemma lfq_Push_linked:
  assumes "lfq_tail q = Some t" "t < length (lfq_nodes q)" "next (lfq_nodes q ! t) = None"
  shows "lfq_Push q v = Some (Inr (q\<lparr>lfq_tail := Some (length (lfq_nodes q)),
            lfq_nodes := (lfq_nodes q @ [\<lparr>val = v, next = None\<rparr>])
               [t := (lfq_nodes q ! t)\<lparr>next := Some (length (lfq_nodes q))\<rparr>]\<rparr>))"
  using assms unfolding lfq_Push_def new_qNode_def prod.case
  by (subst lfq_Push_loop.simps)
     (simp add: CompareAndSwapPointer_next_def deref_def StorePointer_tail_def nth_append)

lemma linked_last_next:
  "linked ns p as \<Longrightarrow> as \<noteq> [] \<Longrightarrow> last as < length ns \<and> next (ns ! last as) = None"
  by (induction as arbitrary: p) (auto split: if_splits)

lemma linked_snoc:
  assumes "linked ns p (as @ [t])" "nd = \<lparr>val = v, next = None\<rparr>"
  shows "linked ((ns @ [nd])[t := (ns ! t)\<lparr>next := Some (length ns)\<rparr>]) p (as @ [t, length ns])"
  using assms(1) linked_distinct[OF assms(1)]
proof (induction as arbitrary: p)
  case Nil
  then show ?case using assms(2) by (simp add: nth_append)
next
  case (Cons a as)
  then show ?case by (auto simp: nth_append)
qed

lemma val_snoc:
  assumes "a < length ns"
  shows "val (((ns @ [nd])[t := (ns ! t)\<lparr>next := x\<rparr>]) ! a) = val (ns ! a)"
  using assms by (cases "a = t") (simp_all add: nth_append)

lemma lfq_Push_appends:
  assumes "lfq_inv q"
  shows "\<exists>q'. lfq_Push q v = Some (Inr q') \<and> lfq_inv q' \<and> lfq_elems q' = lfq_elems q @ [v]"
proof -
  from assms obtain as where c: "lfq_chain q = Some as" and ne: "as \<noteq> []"
    and t: "lfq_tail q = Some (last as)"
    by (auto simp: lfq_inv_def split: option.splits)
  let ?ns = "lfq_nodes q" and ?t = "last as"
  let ?n = "length ?ns"
  let ?ns' = "(?ns @ [\<lparr>val = v, next = None\<rparr>])[?t := (?ns ! ?t)\<lparr>next := Some ?n\<rparr>]"
  let ?q' = "q\<lparr>lfq_tail := Some ?n, lfq_nodes := ?ns'\<rparr>"
  have l: "linked ?ns (lfq_head q) as" using c by (simp add: lfq_chain_iff)
  have tl: "?t < ?n" "next (?ns ! ?t) = None" using linked_last_next[OF l ne] by auto
  have push: "lfq_Push q v = Some (Inr ?q')" by (rule lfq_Push_linked[OF t tl])
  have as: "butlast as @ [?t] = as" using ne by simp
  have "linked ?ns (lfq_head q) (butlast as @ [?t])" using l as by simp
  then have "linked ?ns' (lfq_head q) (butlast as @ [?t, ?n])" by (rule linked_snoc) simp
  moreover have "butlast as @ [?t, ?n] = as @ [?n]" using as by (simp flip: append_assoc del: append_butlast_last_id)
  ultimately have l': "linked ?ns' (lfq_head q) (as @ [?n])" by simp
  then have c': "lfq_chain ?q' = Some (as @ [?n])" by (simp add: lfq_chain_iff)
  have inv': "lfq_inv ?q'" using c' by (simp add: lfq_inv_def)
  have b: "set as \<subseteq> {..<?n}" using linked_bound[OF l] by auto
  have "tl (as @ [?n]) = tl as @ [?n]" using ne by simp
  moreover have "map (\<lambda>a. val (?ns' ! a)) (tl as) = map (\<lambda>a. val (?ns ! a)) (tl as)"
  proof (rule map_cong[OF refl])
    fix a assume "a \<in> set (tl as)"
    then have "a < ?n" using b ne by (auto dest: list.set_sel(2))
    then show "val (?ns' ! a) = val (?ns ! a)" by (rule val_snoc)
  qed
  moreover have "val (?ns' ! ?n) = v" using tl(1) by simp
  ultimately have "lfq_elems ?q' = lfq_elems q @ [v]" using c c' by (simp add: lfq_elems_def)
  with push inv' show ?thesis by blast
qed


lemma lfq_inv_NewQueue: "lfq_inv (lfq_NewQueue z)"
  by (simp add: lfq_inv_def lfq_chain_def lfq_NewQueue_def)

lemma lfq_elems_NewQueue: "lfq_elems (lfq_NewQueue z) = []"
  by (simp add: lfq_elems_def lfq_chain_def lfq_NewQueue_def)

lemma lfq_empty_iff:
  assumes "lfq_inv q"
  shows "lfq_empty q \<longleftrightarrow> lfq_elems q = []"
proof -
  from assms obtain as where c: "lfq_chain q = Some as" and ne: "as \<noteq> []"
    by (auto simp: lfq_inv_def split: option.splits)
  then obtain h bs where as: "as = h # bs" by (cases as) auto
  have l: "linked (lfq_nodes q) (lfq_head q) (h # bs)" using c as by (simp add: lfq_chain_iff)
  then show ?thesis using c as
    by (cases bs) (auto simp: lfq_empty_def lfq_elems_def LoadPointer_next_def deref_def)
qed

lemma lfq_Pop_of_empty: "lfq_empty q \<Longrightarrow> lfq_Pop z q = Some (Inr ((z, False), q))"
  by (rule lfq_Pop_empty[where h = "the (lfq_head q)"])
     (auto simp: lfq_empty_def LoadPointer_next_def deref_def split: option.splits if_splits)

lemma lfq_Pop_removes:
  assumes "lfq_inv q" "lfq_elems q = x # xs"
  shows "\<exists>q'. lfq_Pop z q = Some (Inr ((x, True), q')) \<and> lfq_inv q' \<and> lfq_elems q' = xs
           \<and> lfq_tail q' = lfq_tail q \<and> lfq_nodes q' = lfq_nodes q"
proof -
  from assms obtain as where c: "lfq_chain q = Some as" and ne: "as \<noteq> []"
    and t: "lfq_tail q = Some (last as)"
    by (auto simp: lfq_inv_def split: option.splits)
  from assms(2) c obtain h n bs where as: "as = h # n # bs"
    by (cases as; cases "tl as") (auto simp: lfq_elems_def)
  let ?ns = "lfq_nodes q"
  let ?q' = "q\<lparr>lfq_head := Some n\<rparr>"
  have l: "linked ?ns (lfq_head q) (h # n # bs)" using c as by (simp add: lfq_chain_iff)
  then have pop: "lfq_Pop z q = Some (Inr ((val (?ns ! n), True), ?q'))"
    by (intro lfq_Pop_nonempty[where h = h]) auto
  have "linked ?ns (Some n) (n # bs)" using l by simp
  then have c': "lfq_chain ?q' = Some (n # bs)" by (simp add: lfq_chain_iff)
  have "lfq_inv ?q'" using c' t as by (simp add: lfq_inv_def)
  moreover have "lfq_elems ?q' = xs" "val (?ns ! n) = x"
    using c c' as assms(2) by (simp_all add: lfq_elems_def)
  ultimately show ?thesis using pop by simp
qed


lemma lfq_calls_push_pop_pop:
  "\<exists>q'. lfq_calls z [CallPush v, CallPop, CallPop] (lfq_NewQueue z)
           = Some (Inr ([(v, True), (z, False)], q'))"
proof -
  obtain q1 where p1: "lfq_Push (lfq_NewQueue z) v = Some (Inr q1)" and i1: "lfq_inv q1"
    and e1: "lfq_elems q1 = [v]"
    using lfq_Push_appends[OF lfq_inv_NewQueue, of z v] by (auto simp: lfq_elems_NewQueue)
  obtain q2 where p2: "lfq_Pop z q1 = Some (Inr ((v, True), q2))" and i2: "lfq_inv q2"
    and e2: "lfq_elems q2 = []"
    using lfq_Pop_removes[OF i1 e1] by blast
  have "lfq_empty q2" using lfq_empty_iff[OF i2] e2 by simp
  then have p3: "lfq_Pop z q2 = Some (Inr ((z, False), q2))" by (rule lfq_Pop_of_empty)
  show ?thesis using p1 p2 p3 by simp
qed

text \<open>
  C2. A pop on the queue that \<open>NewQueue\<close> returns reports not-found (and leaves the queue
  as it is); after one push and one pop on a new queue, the next pop reports not-found
  again.
\<close>

theorem lfq_empty_queue_pops:
  "lfq_Pop z (lfq_NewQueue z) = Some (Inr ((z, False), lfq_NewQueue z))
   \<and> (\<exists>q'. lfq_calls z [CallPush v, CallPop, CallPop] (lfq_NewQueue z)
              = Some (Inr ([(v, True), (z, False)], q')))"
proof
  have "lfq_empty (lfq_NewQueue z)"
    by (simp add: lfq_empty_def lfq_NewQueue_def LoadPointer_next_def deref_def)
  then show "lfq_Pop z (lfq_NewQueue z) = Some (Inr ((z, False), lfq_NewQueue z))"
    by (rule lfq_Pop_of_empty)
  show "\<exists>q'. lfq_calls z [CallPush v, CallPop, CallPop] (lfq_NewQueue z)
              = Some (Inr ([(v, True), (z, False)], q'))"
    by (rule lfq_calls_push_pop_pop)
qed




lemma lfq_calls_123:
  "\<exists>q'. lfq_calls z [CallPush a, CallPush b, CallPush c, CallPop, CallPop, CallPop]
           (lfq_NewQueue z)
         = Some (Inr ([(a, True), (b, True), (c, True)], q'))"
proof -
  obtain q1 where p1: "lfq_Push (lfq_NewQueue z) a = Some (Inr q1)" and i1: "lfq_inv q1"
    and e1: "lfq_elems q1 = [a]"
    using lfq_Push_appends[OF lfq_inv_NewQueue, of z a] by (auto simp: lfq_elems_NewQueue)
  obtain q2 where p2: "lfq_Push q1 b = Some (Inr q2)" and i2: "lfq_inv q2"
    and e2: "lfq_elems q2 = [a, b]"
    using lfq_Push_appends[OF i1, of b] e1 by auto
  obtain q3 where p3: "lfq_Push q2 c = Some (Inr q3)" and i3: "lfq_inv q3"
    and e3: "lfq_elems q3 = [a, b, c]"
    using lfq_Push_appends[OF i2, of c] e2 by auto
  obtain q4 where p4: "lfq_Pop z q3 = Some (Inr ((a, True), q4))" and i4: "lfq_inv q4"
    and e4: "lfq_elems q4 = [b, c]"
    using lfq_Pop_removes[OF i3 e3] by blast
  obtain q5 where p5: "lfq_Pop z q4 = Some (Inr ((b, True), q5))" and i5: "lfq_inv q5"
    and e5: "lfq_elems q5 = [c]"
    using lfq_Pop_removes[OF i4 e4] by blast
  obtain q6 where p6: "lfq_Pop z q5 = Some (Inr ((c, True), q6))"
    using lfq_Pop_removes[OF i5 e5] by blast
  show ?thesis using p1 p2 p3 p4 p5 p6 by simp
qed

text \<open>
  C1. One caller pushes 1, 2, 3 on a new queue and pops three times: the pops return
  1, 2, 3 in this order, each with \<open>true\<close>. In general a push on a queue that satisfies
  the invariant returns, and the elements of the queue are then the elements before the
  push followed by the pushed value.
\<close>

theorem lfq_fifo:
  "(\<exists>q'. lfq_calls 0 [CallPush 1, CallPush 2, CallPush 3, CallPop, CallPop, CallPop]
            (lfq_NewQueue (0::int))
          = Some (Inr ([(1, True), (2, True), (3, True)], q')))
   \<and> (lfq_inv q \<longrightarrow>
        (\<exists>q'. lfq_Push q v = Some (Inr q') \<and> lfq_inv q' \<and> lfq_elems q' = lfq_elems q @ [v]))"
  using lfq_calls_123[of "0::int" 1 2 3] lfq_Push_appends[of q v] by blast

theorem lfq_fifo_witness:
  "lfq_inv (lfq_NewQueue (0::int))
   \<and> (\<exists>q'. lfq_Push (lfq_NewQueue (0::int)) 7 = Some (Inr q') \<and> lfq_inv q'
             \<and> lfq_elems q' = lfq_elems (lfq_NewQueue (0::int)) @ [7])"
proof -
  have i: "lfq_inv (lfq_NewQueue (0::int))"
    by (simp add: lfq_inv_def lfq_chain_def lfq_NewQueue_def)
  show ?thesis using i lfq_fifo[of "lfq_NewQueue (0::int)" 7] by blast
qed


section \<open>Properties of the two-stage queue\<close>

lemma tq_Empty_iff:
  assumes "tq_wf q"
  shows "tq_Empty q \<longleftrightarrow> tq_elems q = []"
proof -
  have "nat (tq_headPos q) \<le> length (tq_head q)" using assms by (simp add: tq_wf_def nat_le_iff)
  then have "int (length (tq_head q) - nat (tq_headPos q)) = int (length (tq_head q)) - tq_headPos q"
    using assms by (simp add: of_nat_diff tq_wf_def)
  then have "tq_len q = int (length (tq_elems q))"
    by (simp add: tq_len_def tq_elems_def)
  then show ?thesis by (simp add: tq_Empty_def)
qed

lemma tq_PeekFront_elems:
  assumes "tq_wf q"
  shows "tq_PeekFront q = Inr (case tq_elems q of [] \<Rightarrow> None | x # xs \<Rightarrow> x)"
proof (cases "tq_headPos q < int (length (tq_head q))")
  case True
  then have "drop (nat (tq_headPos q)) (tq_head q)
             = tq_head q ! nat (tq_headPos q) # drop (Suc (nat (tq_headPos q))) (tq_head q)"
    using assms by (intro Cons_nth_drop_Suc[symmetric]) (auto simp: tq_wf_def)
  then show ?thesis using True assms
    by (simp add: tq_PeekFront_def tq_elems_def index_def tq_wf_def)
next
  case False
  then show ?thesis using assms
    by (cases "tq_tail q") (auto simp: tq_PeekFront_def tq_elems_def index_def tq_wf_def)
qed

lemma tq_PopFront_empty:
  assumes "tq_wf q" "tq_elems q = []"
  shows "tq_PopFront q = Inr (None, q)"
  using assms by (auto simp: tq_PopFront_def tq_elems_def tq_wf_def)

lemma tq_PopFront_elems:
  assumes "tq_wf q" "tq_elems q = x # xs"
  shows "\<exists>q'. tq_PopFront q = Inr (x, q') \<and> tq_wf q' \<and> tq_elems q' = xs"
proof (cases "tq_headPos q < int (length (tq_head q))")
  case True
  let ?i = "nat (tq_headPos q)"
  have i: "?i < length (tq_head q)" using True assms(1) by (auto simp: tq_wf_def)
  have d: "drop ?i (tq_head q) = tq_head q ! ?i # drop (Suc ?i) (tq_head q)"
    using i by (rule Cons_nth_drop_Suc[symmetric])
  have x: "x = tq_head q ! ?i" and xs: "xs = drop (Suc ?i) (tq_head q) @ tq_tail q"
    using assms(2) d by (simp_all add: tq_elems_def)
  have n: "nat (tq_headPos q + 1) = Suc ?i" using assms(1) by (simp add: tq_wf_def nat_add_distrib)
  show ?thesis using True assms(1) i x xs n
    by (simp add: tq_PopFront_def index_def tq_wf_def tq_elems_def)
next
  case False
  then have hp: "tq_headPos q = int (length (tq_head q))" using assms(1) by (simp add: tq_wf_def)
  then have t: "tq_tail q = x # xs" using assms(2) by (simp add: tq_elems_def)
  show ?thesis using hp t
    by (simp add: tq_PopFront_def index_def tq_wf_def tq_elems_def)
qed

lemma tq_CleanFront_loop_elems:
  assumes "tq_wf q"
  shows "\<exists>q'. tq_CleanFront_loop c q
                 = Inr (c \<or> length (dropWhile (\<lambda>w. w \<noteq> None) (tq_elems q)) < length (tq_elems q), q')
               \<and> tq_wf q' \<and> tq_elems q' = dropWhile (\<lambda>w. w \<noteq> None) (tq_elems q)"
  using assms
proof (induction "tq_elems q" arbitrary: q c)
  case Nil
  then show ?case
    using tq_PeekFront_elems[of q]
    by (subst tq_CleanFront_loop.simps) auto
next
  case (Cons x xs)
  have e: "tq_elems q = x # xs" using Cons.hyps(2) by simp
  have pk: "tq_PeekFront q = Inr x" using tq_PeekFront_elems[OF Cons.prems] e by simp
  show ?case
  proof (cases x)
    case None
    then show ?thesis using pk e Cons.prems
      by (subst tq_CleanFront_loop.simps) simp
  next
    case (Some v)
    obtain q1 where p: "tq_PopFront q = Inr (x, q1)" and w1: "tq_wf q1" and e1: "tq_elems q1 = xs"
      using tq_PopFront_elems[OF Cons.prems e] by blast
    obtain q' where
      l: "tq_CleanFront_loop True q1
            = Inr (True \<or> length (dropWhile (\<lambda>w. w \<noteq> None) (tq_elems q1)) < length (tq_elems q1), q')"
      and w': "tq_wf q'" and e': "tq_elems q' = dropWhile (\<lambda>w. w \<noteq> None) (tq_elems q1)"
      using Cons.hyps(1)[OF e1[symmetric] w1, of True] by blast
    have "length (dropWhile (\<lambda>w. w \<noteq> None) xs) \<le> length xs" by (rule length_dropWhile_le)
    then have lt: "length (dropWhile (\<lambda>w. w \<noteq> None) (tq_elems q)) < length (tq_elems q)"
      using e Some by simp
    have "tq_CleanFront_loop c q = Inr (True, q')"
      using pk Some p l by (subst tq_CleanFront_loop.simps) simp
    then show ?thesis using lt w' e' e1 e Some by simp
  qed
qed

lemma dropWhile_all: "None \<notin> set xs \<Longrightarrow> dropWhile (\<lambda>w. w \<noteq> None) xs = []"
proof -
  assume n: "None \<notin> set xs"
  have "\<forall>x\<in>set xs. x \<noteq> None"
  proof (intro ballI notI)
    fix x assume "x \<in> set xs" "x = None"
    with n show False by simp
  qed
  then show ?thesis by (simp only: dropWhile_eq_Nil_conv)
qed

text \<open>
  C10. On a well-formed two-stage queue: \<open>PopFront\<close> and \<open>PeekFront\<close> return nil when the
  queue is empty; \<open>CleanFront\<close> returns, having removed the elements in front of the first
  nil element (all of them if there is none), after which \<open>PeekFront\<close> yields nil, and
  its result is true exactly when it removed at least one element. So the queue is empty
  after \<open>CleanFront\<close> if it holds no nil, while a nil element stops \<open>CleanFront\<close> there and
  stays at the front, where \<open>PeekFront\<close> and \<open>PopFront\<close> return the same nil as on an
  empty queue.
\<close>

theorem tq_CleanFront_correct:
  assumes "tq_wf q"
  shows "(tq_Empty q \<longrightarrow> tq_PopFront q = Inr (None, q) \<and> tq_PeekFront q = Inr None)
    \<and> (\<exists>cleaned q'. tq_CleanFront q = Inr (cleaned, q') \<and> tq_wf q'
          \<and> tq_elems q' = dropWhile (\<lambda>w. w \<noteq> None) (tq_elems q)
          \<and> tq_PeekFront q' = Inr None
          \<and> (cleaned \<longleftrightarrow> length (tq_elems q') < length (tq_elems q))
          \<and> (None \<notin> set (tq_elems q) \<longrightarrow> tq_Empty q')
          \<and> (None \<in> set (tq_elems q) \<longrightarrow>
                \<not> tq_Empty q' \<and> hd (tq_elems q') = None
                \<and> (\<exists>q''. tq_PopFront q' = Inr (None, q'') \<and> tq_elems q'' = tl (tq_elems q'))))"
proof
  show "tq_Empty q \<longrightarrow> tq_PopFront q = Inr (None, q) \<and> tq_PeekFront q = Inr None"
  proof (intro impI conjI)
    assume "tq_Empty q"
    then have e0: "tq_elems q = []" using tq_Empty_iff[OF assms] by simp
    show "tq_PopFront q = Inr (None, q)" by (rule tq_PopFront_empty[OF assms e0])
    show "tq_PeekFront q = Inr None" using tq_PeekFront_elems[OF assms] unfolding e0 by simp
  qed
  let ?d = "dropWhile (\<lambda>w. w \<noteq> None) (tq_elems q)"
  from tq_CleanFront_loop_elems[OF assms, of False]
  obtain q' where h: "tq_CleanFront_loop False q = Inr (False \<or> length ?d < length (tq_elems q), q')
               \<and> tq_wf q' \<and> tq_elems q' = ?d" ..
  have c0: "tq_CleanFront_loop False q = Inr (False \<or> length ?d < length (tq_elems q), q')"
    and w: "tq_wf q'" and e: "tq_elems q' = ?d"
    using h by simp_all
  have c: "tq_CleanFront q = Inr (length ?d < length (tq_elems q), q')"
    using c0 unfolding tq_CleanFront_def by simp
  have hdN: "hd ?d = None" if "?d \<noteq> []"
    using hd_dropWhile[OF that] by simp
  have pk: "tq_PeekFront q' = Inr None"
  proof (cases ?d)
    case Nil
    show ?thesis using tq_PeekFront_elems[OF w] unfolding e Nil by simp
  next
    case (Cons y ys)
    have "y = None" using hdN unfolding Cons by simp
    then show ?thesis using tq_PeekFront_elems[OF w] unfolding e Cons by simp
  qed
  have a: "None \<notin> set (tq_elems q) \<longrightarrow> tq_Empty q'"
  proof
    assume "None \<notin> set (tq_elems q)"
    then have "?d = []" by (rule dropWhile_all)
    then have "tq_elems q' = []" unfolding e .
    then show "tq_Empty q'" using tq_Empty_iff[OF w] by simp
  qed
  have b: "None \<in> set (tq_elems q) \<longrightarrow>
                \<not> tq_Empty q' \<and> hd (tq_elems q') = None
                \<and> (\<exists>q''. tq_PopFront q' = Inr (None, q'') \<and> tq_elems q'' = tl (tq_elems q'))"
  proof
    assume n: "None \<in> set (tq_elems q)"
    have ne: "?d \<noteq> []"
    proof
      assume "?d = []"
      then have "\<forall>x\<in>set (tq_elems q). x \<noteq> None" by (simp only: dropWhile_eq_Nil_conv)
      with n show False by blast
    qed
    then obtain y ys where yys: "?d = y # ys" by (auto simp only: neq_Nil_conv)
    have "y = None" using hdN[OF ne] unfolding yys by simp
    then have d: "tq_elems q' = None # ys" unfolding e yys by simp
    from tq_PopFront_elems[OF w d]
    obtain q'' where h'': "tq_PopFront q' = Inr (None, q'') \<and> tq_wf q'' \<and> tq_elems q'' = ys" ..
    have p: "tq_PopFront q' = Inr (None, q'')" and e'': "tq_elems q'' = ys"
      using h'' by simp_all
    have "\<not> tq_Empty q'" using tq_Empty_iff[OF w] unfolding d by simp
    moreover have "hd (tq_elems q') = None" unfolding d by simp
    moreover have "tq_PopFront q' = Inr (None, q'') \<and> tq_elems q'' = tl (tq_elems q')"
      using p unfolding d e'' by simp
    then have "\<exists>q''. tq_PopFront q' = Inr (None, q'') \<and> tq_elems q'' = tl (tq_elems q')" ..
    ultimately show "\<not> tq_Empty q' \<and> hd (tq_elems q') = None
                \<and> (\<exists>q''. tq_PopFront q' = Inr (None, q'') \<and> tq_elems q'' = tl (tq_elems q'))"
      by (intro conjI)
  qed
  show "\<exists>cleaned q'. tq_CleanFront q = Inr (cleaned, q') \<and> tq_wf q'
          \<and> tq_elems q' = dropWhile (\<lambda>w. w \<noteq> None) (tq_elems q)
          \<and> tq_PeekFront q' = Inr None
          \<and> (cleaned \<longleftrightarrow> length (tq_elems q') < length (tq_elems q))
          \<and> (None \<notin> set (tq_elems q) \<longrightarrow> tq_Empty q')
          \<and> (None \<in> set (tq_elems q) \<longrightarrow>
                \<not> tq_Empty q' \<and> hd (tq_elems q') = None
                \<and> (\<exists>q''. tq_PopFront q' = Inr (None, q'') \<and> tq_elems q'' = tl (tq_elems q')))"
  proof (intro exI conjI)
    show "tq_CleanFront q = Inr (length ?d < length (tq_elems q), q')" by (rule c)
    show "tq_wf q'" by (rule w)
    show "tq_elems q' = ?d" by (rule e)
    show "tq_PeekFront q' = Inr None" by (rule pk)
    show "(length ?d < length (tq_elems q)) \<longleftrightarrow> length (tq_elems q') < length (tq_elems q)"
      unfolding e by (rule refl)
    show "None \<notin> set (tq_elems q) \<longrightarrow> tq_Empty q'" by (rule a)
    show "None \<in> set (tq_elems q) \<longrightarrow>
                \<not> tq_Empty q' \<and> hd (tq_elems q') = None
                \<and> (\<exists>q''. tq_PopFront q' = Inr (None, q'') \<and> tq_elems q'' = tl (tq_elems q'))"
      by (rule b)
  qed
qed

theorem tq_CleanFront_correct_witness:
  "tq_wf (tq_PushBack (tq_PushBack tq_zero (Some (1::int))) None)
   \<and> (\<exists>q'. tq_CleanFront (tq_PushBack (tq_PushBack tq_zero (Some (1::int))) None) = Inr (True, q')
         \<and> tq_elems q' = [None] \<and> \<not> tq_Empty q' \<and> tq_PeekFront q' = Inr None)
   \<and> tq_Empty (tq_zero :: int Queue2) \<and> tq_wf (tq_zero :: int Queue2)
   \<and> tq_PopFront (tq_zero :: int Queue2) = Inr (None, tq_zero)"
proof -
  let ?q = "tq_PushBack (tq_PushBack tq_zero (Some (1::int))) None"
  have w: "tq_wf ?q" by (simp add: tq_wf_def tq_PushBack_def tq_zero_def)
  have el: "tq_elems ?q = [Some 1, None]" by (simp add: tq_elems_def tq_PushBack_def tq_zero_def)
  have w0: "tq_wf (tq_zero :: int Queue2)" by (simp add: tq_wf_def tq_zero_def)
  have e0: "tq_Empty (tq_zero :: int Queue2)" by (simp add: tq_Empty_def tq_len_def tq_zero_def)
  have n: "None \<in> set (tq_elems ?q)" unfolding el by simp
  have d: "dropWhile (\<lambda>w. w \<noteq> None) (tq_elems ?q) = [None]" unfolding el by simp
  have "\<exists>q'. tq_CleanFront ?q = Inr (True, q')
         \<and> tq_elems q' = [None] \<and> \<not> tq_Empty q' \<and> tq_PeekFront q' = Inr None"
    using tq_CleanFront_correct[OF w] n unfolding d unfolding el by auto
  moreover have "tq_PopFront (tq_zero :: int Queue2) = Inr (None, tq_zero)"
    using tq_CleanFront_correct[OF w0] e0 by blast
  ultimately show ?thesis using w w0 e0 by blast
qed

section \<open>The lock-free queue under concurrent callers\<close>

lemmas lfq_prims =
  new_qNode_def CompareAndSwapPointer_next_def CompareAndSwapPointer_head_def
  StorePointer_tail_def LoadPointer_next_def deref_def

lemma lfq_exec_append: "lfq_exec z (evs @ evs') c = lfq_exec z evs' (lfq_exec z evs c)"
  by (simp add: lfq_exec_def)

lemma lfq_exec_Nil: "lfq_exec z [] c = c"
  by (simp add: lfq_exec_def)

lemma lfq_exec_Cons: "lfq_exec z (ev # evs) c = lfq_exec z evs (lfq_event z c ev)"
  by (simp add: lfq_exec_def)



lemma lfq_spin:
  assumes "lfq_tail q = Some t" "t < length (lfq_nodes q)" "next (lfq_nodes q ! t) \<noteq> None"
    "i < length fs" "fs ! i = PushLoadTail node \<or> fs ! i = PushCAS node (Some t)"
  shows "\<exists>f. lfq_exec z (replicate n (Step i)) (q, fs) = (q, fs[i := f])
             \<and> (f = PushLoadTail node \<or> f = PushCAS node (Some t))"
proof (induction n)
  case 0
  have "fs = fs[i := fs ! i]" by simp
  then have "lfq_exec z (replicate 0 (Step i)) (q, fs) = (q, fs[i := fs ! i])"
    by (simp add: lfq_exec_Nil)
  then show ?case using assms(5) by blast
next
  case (Suc n)
  then obtain f where e: "lfq_exec z (replicate n (Step i)) (q, fs) = (q, fs[i := f])"
    and f: "f = PushLoadTail node \<or> f = PushCAS node (Some t)" by blast
  have r: "replicate (Suc n) (Step i) = replicate n (Step i) @ [Step i]"
    by (simp add: replicate_append_same)
  from f show ?case
  proof
    assume "f = PushLoadTail node"
    then have "lfq_exec z (replicate (Suc n) (Step i)) (q, fs) = (q, fs[i := PushCAS node (Some t)])"
      unfolding r lfq_exec_append e using assms(1,4)
      by (simp add: lfq_exec_Cons lfq_exec_Nil)
    then show ?thesis by blast
  next
    assume "f = PushCAS node (Some t)"
    then have "lfq_exec z (replicate (Suc n) (Step i)) (q, fs) = (q, fs[i := PushLoadTail node])"
      unfolding r lfq_exec_append e using assms(2,3,4)
      by (auto simp: lfq_exec_Cons lfq_exec_Nil lfq_prims)
    then show ?thesis by blast
  qed
qed

lemma lfq_stall_prefix:
  "lfq_exec z [Begin 0 (CallPush a), Begin (Suc 0) (CallPush b), Step 0, Step 0, Step 0, Step (Suc 0)]
     (lfq_start z 2)
   = (\<lparr>lfq_head = Some 0, lfq_tail = Some 0,
       lfq_nodes = [\<lparr>val = z, next = Some 1\<rparr>, \<lparr>val = a, next = None\<rparr>, \<lparr>val = b, next = None\<rparr>]\<rparr>,
      [PushStore 1, PushLoadTail 2])"
  by (simp add: lfq_exec_def lfq_start_def lfq_NewQueue_def returned_def lfq_prims numeral_2_eq_2)

text \<open>
  C6. Two goroutines push on a new queue. The first runs until its compare-and-swap has
  linked its node and is then suspended before the store to \<open>tail\<close>. However many steps
  the second then takes, its call has not returned: \<open>tail\<close> still references the dummy
  node, whose successor is no longer nil, so each of its compare-and-swaps fails.
\<close>

theorem lfq_stalled_push_blocks_push:
  "snd (lfq_exec z
         ([Begin 0 (CallPush a), Begin (Suc 0) (CallPush b), Step 0, Step 0, Step 0, Step (Suc 0)]
            @ replicate n (Step (Suc 0)))
         (lfq_start z 2)) ! 0 = PushStore 1
   \<and> \<not> returned (snd (lfq_exec z
         ([Begin 0 (CallPush a), Begin (Suc 0) (CallPush b), Step 0, Step 0, Step 0, Step (Suc 0)]
            @ replicate n (Step (Suc 0)))
         (lfq_start z 2)) ! Suc 0)"
proof -
  let ?q = "\<lparr>lfq_head = Some 0, lfq_tail = Some 0,
       lfq_nodes = [\<lparr>val = z, next = Some 1\<rparr>, \<lparr>val = a, next = None\<rparr>, \<lparr>val = b, next = None\<rparr>]\<rparr>"
  let ?fs = "[PushStore 1, PushLoadTail 2 :: 'a frame]"
  obtain f where e: "lfq_exec z (replicate n (Step (Suc 0))) (?q, ?fs) = (?q, ?fs[Suc 0 := f])"
    and f: "f = PushLoadTail 2 \<or> f = PushCAS 2 (Some 0)"
    using lfq_spin[of ?q 0 "Suc 0" ?fs 2 z n] by auto
  show ?thesis unfolding lfq_exec_append lfq_stall_prefix e using f
    by (auto simp: returned_def)
qed






section \<open>Properties of the ring-buffer queue\<close>

lemmas rq_lock_defs = RLock_def RUnlock_def Lock_def Unlock_def unlocked_def

text \<open>
  C8 fails for \<open>Index\<close>. On an empty queue \<open>Index\<close> takes the read lock and returns \<open>-1\<close>
  without releasing it: after the call on a new queue one read lock is held, and the
  next \<open>Push\<close> waits for the write lock for ever.
\<close>

theorem rq_Index_keeps_read_lock:
  "rq_Index v (rq_NewQueue z)
     = (Return (- 1), (rq_NewQueue z)\<lparr>rq_lock := \<lparr>readers = 1, writer = False\<rparr>\<rparr>)
   \<and> unlocked (rq_lock (rq_NewQueue z))
   \<and> \<not> unlocked (rq_lock (snd (rq_Index v (rq_NewQueue z))))
   \<and> fst (rq_Push z e (snd (rq_Index v (rq_NewQueue z)))) = Waits"
  by (simp add: rq_Index_def rq_NewQueue_def rq_Push_def rq_lock_defs)

subsection \<open>Powers of two and the bitwise modulus\<close>

lemma is_pow2_pos: "is_pow2 n \<Longrightarrow> 0 < n"
  by (subst (asm) is_pow2.simps) (auto split: if_splits)

lemma is_pow2_exp: "is_pow2 n \<Longrightarrow> \<exists>k. n = 2 ^ k"
proof (induction n rule: is_pow2.induct)
  case (1 n)
  show ?case
  proof (cases "n \<le> 1")
    case True
    then have "n = 1" using "1.prems" by (subst (asm) is_pow2.simps) simp
    then have "n = 2 ^ 0" by simp
    then show ?thesis by blast
  next
    case False
    then have e: "even n" and p: "is_pow2 (n div 2)"
      using "1.prems" by (subst (asm) is_pow2.simps, simp)+
    from "1.IH"[OF False p] obtain k where "n div 2 = 2 ^ k" by blast
    then have "n = 2 ^ Suc k" using e by auto
    then show ?thesis by blast
  qed
qed

lemma is_pow2_double: "is_pow2 n \<Longrightarrow> is_pow2 (2 * n)"
  using is_pow2_pos[of n] by (subst is_pow2.simps) simp

lemma is_pow2_half: "is_pow2 n \<Longrightarrow> 1 < n \<Longrightarrow> is_pow2 (n div 2)"
  by (subst (asm) is_pow2.simps) simp

lemma is_pow2_gt16:
  assumes "is_pow2 n" "16 < n"
  shows "32 \<le> n"
proof -
  obtain k where k: "n = 2 ^ k" using is_pow2_exp[OF assms(1)] by blast
  have "\<not> k \<le> 4"
  proof
    assume "k \<le> 4"
    then have "(2::nat) ^ k \<le> 2 ^ 4" by (intro power_increasing) simp_all
    then show False using assms(2) k by simp
  qed
  then have "5 \<le> k" by simp
  then have "(2::nat) ^ 5 \<le> 2 ^ k" by (intro power_increasing) simp_all
  then show ?thesis using k by simp
qed

lemma and_mask_mod:
  assumes "is_pow2 n"
  shows "(x::int) AND (int n - 1) = x mod int n"
proof -
  obtain k where k: "n = 2 ^ k" using is_pow2_exp[OF assms] by blast
  have "x AND (2 ^ k - 1) = x mod 2 ^ k"
    by (simp add: take_bit_eq_mod flip: take_bit_eq_mask mask_eq_exp_minus_1)
  then show ?thesis using k by simp
qed

subsection \<open>The ring as a list\<close>

lemma length_ring: "length (ring buf h c) = c"
  by (simp add: ring_def)

lemma ring_nowrap:
  assumes "h + c \<le> length buf"
  shows "ring buf h c = take c (drop h buf)"
proof (rule nth_equalityI)
  show "length (ring buf h c) = length (take c (drop h buf))" using assms by (simp add: ring_def)
  fix i assume "i < length (ring buf h c)"
  then have i: "i < c" by (simp add: ring_def)
  then have "(h + i) mod length buf = h + i" using assms by simp
  then show "ring buf h c ! i = take c (drop h buf) ! i" using i assms by (simp add: ring_def)
qed

lemma ring_wrap:
  assumes "h \<le> length buf" "c \<le> length buf" "length buf \<le> h + c" "0 < length buf"
  shows "ring buf h c = drop h buf @ take (h + c - length buf) buf"
proof (rule nth_equalityI)
  let ?n = "length buf"
  show "length (ring buf h c) = length (drop h buf @ take (h + c - ?n) buf)"
    using assms by (simp add: ring_def)
  fix i assume "i < length (ring buf h c)"
  then have i: "i < c" by (simp add: ring_def)
  show "ring buf h c ! i = (drop h buf @ take (h + c - ?n) buf) ! i"
  proof (cases "i < ?n - h")
    case True
    then have "(h + i) mod ?n = h + i" by simp
    then show ?thesis using True i by (simp add: ring_def nth_append)
  next
    case False
    then have ge: "?n \<le> h + i" by simp
    have lt: "h + i - ?n < ?n" using i assms by simp
    have "(h + i) mod ?n = (h + i - ?n) mod ?n" using ge by (simp add: le_mod_geq)
    also have "\<dots> = h + i - ?n" using lt by simp
    finally have m: "(h + i) mod ?n = h + i - ?n" .
    have "i - (?n - h) = h + i - ?n" using assms(1) False by simp
    then show ?thesis using False i m assms by (simp add: ring_def nth_append)
  qed
qed

lemma ring_snoc:
  assumes "c < length buf"
  shows "ring (buf[(h + c) mod length buf := e]) h (Suc c) = ring buf h c @ [e]"
proof -
  let ?n = "length buf"
  have n: "0 < ?n" using assms by (cases buf) simp_all
  have ne: "(h + i) mod ?n \<noteq> (h + c) mod ?n" if "i < c" for i
  proof
    assume "(h + i) mod ?n = (h + c) mod ?n"
    then have "(h + c - (h + i)) mod ?n = 0"
      using that by (metis add_le_cancel_left less_imp_le_nat mod_eq_dvd_iff_nat dvd_eq_mod_eq_0)
    then have "(c - i) mod ?n = 0" by simp
    moreover have "0 < c - i" "c - i < ?n" using that assms by simp_all
    ultimately show False by simp
  qed
  have "map (\<lambda>i. buf[(h + c) mod ?n := e] ! ((h + i) mod ?n)) [0..<c]
        = map (\<lambda>i. buf ! ((h + i) mod ?n)) [0..<c]"
  proof (rule map_cong[OF refl])
    fix i assume "i \<in> set [0..<c]"
    then have "(h + c) mod ?n \<noteq> (h + i) mod ?n" using ne[of i] by auto
    then show "buf[(h + c) mod ?n := e] ! ((h + i) mod ?n) = buf ! ((h + i) mod ?n)"
      by (rule nth_list_update_neq)
  qed
  moreover have "buf[(h + c) mod ?n := e] ! ((h + c) mod ?n) = e" using n by simp
  ultimately show ?thesis by (simp add: ring_def)
qed

lemma ring_Cons:
  assumes "0 < c" "0 < length buf"
  shows "ring buf h c = buf ! (h mod length buf) # ring buf (Suc h mod length buf) (c - 1)"
proof -
  obtain c' where c: "c = Suc c'" using assms(1) by (cases c) auto
  have "[0..<Suc c'] = 0 # map Suc [0..<c']" by (simp add: upt_conv_Cons map_Suc_upt del: upt_Suc)
  then have "ring buf h c = buf ! (h mod length buf) # map (\<lambda>i. buf ! ((h + Suc i) mod length buf)) [0..<c']"
    unfolding c ring_def by (simp add: comp_def del: upt_Suc)
  moreover have "(Suc h mod length buf + i) mod length buf = (h + Suc i) mod length buf" for i
    by (simp add: mod_add_left_eq)
  ultimately show ?thesis unfolding c by (simp add: ring_def)
qed

subsection \<open>\<open>resize\<close>\<close>

lemma rq_elems_ring:
  assumes "0 \<le> rq_head q"
  shows "rq_elems q = ring (rq_buf q) (nat (rq_head q)) (nat (rq_count q))"
proof -
  have "nat ((rq_head q + int i) mod int (length (rq_buf q)))
        = (nat (rq_head q) + i) mod length (rq_buf q)" for i
    using assms by (simp add: nat_mod_distrib nat_add_distrib)
  then show ?thesis by (simp add: rq_elems_def ring_def)
qed

lemma rq_resize_ok:
  assumes "0 \<le> rq_head q" "rq_head q < int (length (rq_buf q))"
    "0 \<le> rq_count q" "rq_count q \<le> int (length (rq_buf q))"
    "rq_tail q = (rq_head q + rq_count q) mod int (length (rq_buf q))"
  shows "rq_resize z q
         = Inr (q\<lparr>rq_head := 0, rq_tail := rq_count q,
                  rq_buf := rq_elems q @ replicate (nat (rq_count q)) z\<rparr>)"
proof -
  let ?n = "length (rq_buf q)"
  let ?buf = "rq_buf q"
  obtain h where h: "rq_head q = int h" using assms(1) nonneg_int_cases by blast
  obtain c where c: "rq_count q = int c" using assms(3) nonneg_int_cases by blast
  have hn: "h < ?n" and cn: "c \<le> ?n" using assms(2,4) h c by simp_all
  have mk: "make_slice z (push_bit 1 (rq_count q)) = Inr (replicate (2 * c) z)"
    unfolding c by (simp add: make_slice_def push_bit_eq_mult nat_mult_distrib)
  have el: "rq_elems q = ring ?buf h c" using rq_elems_ring[OF assms(1)] unfolding h c by simp
  have t: "rq_tail q = int ((h + c) mod ?n)"
    unfolding assms(5) h c by (simp add: zmod_int)
  consider (A) "h + c < ?n" "0 < c" | (B) "c = 0" | (C) "?n \<le> h + c" "0 < c" by linarith
  then have "(if rq_tail q > rq_head q then
                (case slice ?buf (rq_head q) (rq_tail q) of
                   Inl e \<Rightarrow> Inl e
                 | Inr src \<Rightarrow> Inr (fst (copy (replicate (2 * c) z) src)))
              else
                (case slice ?buf (rq_head q) (int ?n) of
                   Inl e \<Rightarrow> Inl e
                 | Inr src \<Rightarrow>
                     (case copy (replicate (2 * c) z) src of
                        (newBuf1, n) \<Rightarrow>
                          (case slice ?buf 0 (rq_tail q) of
                             Inl e \<Rightarrow> Inl e
                           | Inr src2 \<Rightarrow>
                               Inr (take n newBuf1 @ fst (copy (drop n newBuf1) src2))))))
             = Inr (ring ?buf h c @ replicate c z)"
  proof cases
    case A
    then have t': "rq_tail q = int (h + c)" using t by simp
    have gt: "rq_tail q > rq_head q" unfolding t' h using A(2) by simp
    have sl: "slice ?buf (rq_head q) (rq_tail q) = Inr (take c (drop h ?buf))"
      unfolding t' h using A by (simp add: slice_def)
    have r: "ring ?buf h c = take c (drop h ?buf)" using A by (intro ring_nowrap) simp
    have l: "length (take c (drop h ?buf)) = c" using A by simp
    have "fst (copy (replicate (2 * c) z) (take c (drop h ?buf)))
          = take c (drop h ?buf) @ replicate c z"
      unfolding copy_def Let_def fst_conv l by (simp add: min_def)
    then show ?thesis using gt sl r by simp
  next
    case B
    then have t': "rq_tail q = rq_head q" using t hn h by simp
    have sl1: "slice ?buf (rq_head q) (int ?n) = Inr (drop h ?buf)"
      unfolding h using hn by (simp add: slice_def)
    have sl2: "slice ?buf 0 (rq_head q) = Inr (take h ?buf)"
      unfolding h using hn by (simp add: slice_def)
    show ?thesis unfolding t' using sl1 sl2 B by (simp add: copy_def ring_def)
  next
    case C
    let ?t = "h + c - ?n"
    have "(h + c) mod ?n = (h + c - ?n) mod ?n" using C(1) by (simp add: le_mod_geq)
    also have "\<dots> = ?t" using hn cn by simp
    finally have t': "rq_tail q = int ?t" using t by simp
    have le: "\<not> rq_tail q > rq_head q" unfolding t' h using cn by simp
    have sl1: "slice ?buf (rq_head q) (int ?n) = Inr (drop h ?buf)"
      unfolding h using hn by (simp add: slice_def)
    have sl2: "slice ?buf 0 (rq_tail q) = Inr (take ?t ?buf)"
      unfolding t' using hn cn by (simp add: slice_def)
    have r: "ring ?buf h c = drop h ?buf @ take ?t ?buf"
      using hn cn C by (intro ring_wrap) auto
    have m1: "min (2 * c) (?n - h) = ?n - h" using C hn cn by simp
    have c1: "copy (replicate (2 * c) z) (drop h ?buf)
              = (drop h ?buf @ replicate (2 * c - (?n - h)) z, ?n - h)"
      unfolding copy_def Let_def by (simp add: m1)
    have lt: "length (take ?t ?buf) = ?t" using hn cn by simp
    have m2: "min (2 * c - (?n - h)) ?t = ?t" using C hn cn by simp
    have c2: "fst (copy (replicate (2 * c - (?n - h)) z) (take ?t ?buf))
              = take ?t ?buf @ replicate c z"
    proof -
      have "2 * c - (?n - h) - ?t = c" using C hn cn by simp
      then show ?thesis unfolding copy_def Let_def fst_conv lt length_replicate m2 by simp
    qed
    show ?thesis using le sl1 sl2 c1 c2 r by simp
  qed
  then show ?thesis unfolding rq_resize_def mk el by (simp add: c)
qed

subsection \<open>\<open>Push\<close> and \<open>Pop\<close>\<close>

lemma length_rq_elems: "length (rq_elems q) = nat (rq_count q)"
  by (simp add: rq_elems_def)

lemma rq_inv_lock [simp]: "rq_inv (q\<lparr>rq_lock := l\<rparr>) = rq_inv q"
  by (simp add: rq_inv_def)

lemma rq_elems_lock [simp]: "rq_elems (q\<lparr>rq_lock := l\<rparr>) = rq_elems q"
  by (simp add: rq_elems_def)

lemma rq_resized:
  fixes q :: "'a Queue" and z :: 'a
  assumes "0 < rq_count q" "is_pow2 (2 * nat (rq_count q))" "minQueueLen \<le> 2 * rq_count q"
  defines "q' \<equiv> q\<lparr>rq_head := 0, rq_tail := rq_count q,
                    rq_buf := rq_elems q @ replicate (nat (rq_count q)) z\<rparr>"
  shows "rq_inv q'" and "rq_elems q' = rq_elems q"
    and "length (rq_buf q') = 2 * nat (rq_count q)" and "rq_count q' = rq_count q"
proof -
  obtain c where c: "rq_count q = int c" using assms(1) nonneg_int_cases[of "rq_count q"] by auto
  have c0: "0 < c" using assms(1) c by simp
  have len: "length (rq_buf q') = 2 * c" unfolding q'_def by (simp add: length_rq_elems c)
  show "length (rq_buf q') = 2 * nat (rq_count q)" using len c by simp
  show "rq_count q' = rq_count q" unfolding q'_def by simp
  have m: "int c mod int (2 * c) = int c" using c0 by simp
  have pw: "is_pow2 (2 * c)" using assms(2) by (simp add: c)
  have mn: "minQueueLen \<le> int (2 * c)" using assms(3) by (simp add: c)
  have "rq_head q' = 0" "rq_tail q' = int c" "rq_count q' = int c"
    unfolding q'_def by (simp_all add: c)
  then show "rq_inv q'"
    unfolding rq_inv_def len using pw mn m c0 by simp
  have "rq_elems q' = ring (rq_buf q') 0 c" using rq_elems_ring[of q'] by (simp add: q'_def c)
  also have "\<dots> = take c (drop 0 (rq_buf q'))" using len by (intro ring_nowrap) simp
  also have "\<dots> = rq_elems q" unfolding q'_def by (simp add: length_rq_elems c)
  finally show "rq_elems q' = rq_elems q" .
qed

lemma rq_store:
  fixes q :: "'a Queue" and e :: 'a
  assumes "rq_inv q" "rq_count q < int (length (rq_buf q))"
  defines "q' \<equiv> q\<lparr>rq_buf := (rq_buf q)[nat (rq_tail q) := e],
                    rq_tail := (rq_tail q + 1) AND (int (length (rq_buf q)) - 1),
                    rq_count := rq_count q + 1\<rparr>"
  shows "rq_inv q'" and "rq_elems q' = rq_elems q @ [e]"
    and "0 \<le> rq_tail q \<and> rq_tail q < int (length (rq_buf q))"
proof -
  let ?n = "length (rq_buf q)"
  have p2: "is_pow2 ?n" and mn: "minQueueLen \<le> int ?n" and h0: "0 \<le> rq_head q"
    and hn': "rq_head q < int ?n" and c0: "0 \<le> rq_count q"
    and t: "rq_tail q = (rq_head q + rq_count q) mod int ?n"
    using assms(1) by (simp_all add: rq_inv_def)
  obtain h where h: "rq_head q = int h" using h0 nonneg_int_cases by blast
  obtain c where c: "rq_count q = int c" using c0 nonneg_int_cases by blast
  have hn: "h < ?n" and cn: "c < ?n" using hn' assms(2) h c by simp_all
  have t': "rq_tail q = int ((h + c) mod ?n)" unfolding t h c by (simp add: zmod_int)
  have npos: "0 < ?n" using hn by linarith
  show "0 \<le> rq_tail q \<and> rq_tail q < int ?n" unfolding t' using npos by simp
  have tl: "(rq_tail q + 1) AND (int ?n - 1) = (int h + (int c + 1)) mod int ?n"
    unfolding and_mask_mod[OF p2] t' by (simp add: zmod_int mod_simps add.assoc)
  show "rq_inv q'"
    using p2 mn hn cn tl unfolding rq_inv_def q'_def by (simp add: h c)
  have "rq_elems q' = ring (rq_buf q') h (Suc c)"
    using rq_elems_ring[of q'] by (simp add: q'_def h c nat_add_distrib)
  also have "rq_buf q' = (rq_buf q)[(h + c) mod ?n := e]" unfolding q'_def t' by simp
  also have "ring ((rq_buf q)[(h + c) mod ?n := e]) h (Suc c) = ring (rq_buf q) h c @ [e]"
    using cn by (rule ring_snoc)
  also have "ring (rq_buf q) h c = rq_elems q" using rq_elems_ring[OF h0] by (simp add: h c)
  finally show "rq_elems q' = rq_elems q @ [e]" .
qed

lemma rq_Push_ok:
  assumes "rq_inv q" "unlocked (rq_lock q)"
  shows "\<exists>q'. rq_Push z e q = (Return (), q') \<and> rq_inv q' \<and> rq_elems q' = rq_elems q @ [e]
           \<and> rq_lock q' = rq_lock q
           \<and> length (rq_buf q')
               = (if rq_count q = int (length (rq_buf q)) then 2 * nat (rq_count q)
                  else length (rq_buf q))"
proof -
  let ?n = "length (rq_buf q)"
  let ?l = "(rq_lock q)\<lparr>writer := True\<rparr>"
  let ?q1 = "q\<lparr>rq_lock := ?l\<rparr>"
  have lk: "Lock (rq_lock q) = Some ?l" using assms(2) by (simp add: rq_lock_defs)
  have ul: "Unlock ?l = Inr (rq_lock q)" using assms(2) by (simp add: rq_lock_defs)
  have p2: "is_pow2 ?n" and mn: "minQueueLen \<le> int ?n" and h0: "0 \<le> rq_head q"
    and hn: "rq_head q < int ?n" and c0: "0 \<le> rq_count q" and cn: "rq_count q \<le> int ?n"
    and t: "rq_tail q = (rq_head q + rq_count q) mod int ?n"
    using assms(1) by (simp_all add: rq_inv_def)
  obtain q2 where
    r: "(if rq_count ?q1 = int (length (rq_buf ?q1)) then rq_resize z ?q1 else Inr ?q1) = Inr q2"
    and i2: "rq_inv q2" and e2: "rq_elems q2 = rq_elems q" and l2: "rq_lock q2 = ?l"
    and c2: "rq_count q2 < int (length (rq_buf q2))"
    and n2: "length (rq_buf q2) = (if rq_count q = int ?n then 2 * nat (rq_count q) else ?n)"
  proof (cases "rq_count q = int ?n")
    case True
    let ?q2 = "?q1\<lparr>rq_head := 0, rq_tail := rq_count ?q1,
                  rq_buf := rq_elems ?q1 @ replicate (nat (rq_count ?q1)) z\<rparr>"
    have rs: "rq_resize z ?q1 = Inr ?q2" using h0 hn c0 cn t by (intro rq_resize_ok) simp_all
    have pos: "0 < rq_count ?q1" using True mn by (auto simp: minQueueLen_def)
    have pw: "is_pow2 (2 * nat (rq_count ?q1))" using True is_pow2_double[OF p2] by simp
    have m2: "minQueueLen \<le> 2 * rq_count ?q1" using True mn by simp
    note R = rq_resized[OF pos pw m2, where z = z]
    show ?thesis
    proof (rule that[of ?q2])
      show "(if rq_count ?q1 = int (length (rq_buf ?q1)) then rq_resize z ?q1 else Inr ?q1) = Inr ?q2"
        using True rs by simp
      show "rq_inv ?q2" by (rule R(1))
      show "rq_elems ?q2 = rq_elems q" using R(2) by simp
      show "rq_lock ?q2 = ?l" by simp
      show "rq_count ?q2 < int (length (rq_buf ?q2))" using R(3) R(4) pos by linarith
      show "length (rq_buf ?q2) = (if rq_count q = int ?n then 2 * nat (rq_count q) else ?n)"
        using R(3) True by simp
    qed
  next
    case False
    show ?thesis
    proof (rule that[of ?q1])
      show "(if rq_count ?q1 = int (length (rq_buf ?q1)) then rq_resize z ?q1 else Inr ?q1) = Inr ?q1"
        using False by simp
      show "rq_inv ?q1" using assms(1) by simp
      show "rq_elems ?q1 = rq_elems q" by simp
      show "rq_lock ?q1 = ?l" by simp
      show "rq_count ?q1 < int (length (rq_buf ?q1))" using False cn by simp
      show "length (rq_buf ?q1) = (if rq_count q = int ?n then 2 * nat (rq_count q) else ?n)"
        using False by simp
    qed
  qed
  let ?q5 = "q2\<lparr>rq_buf := (rq_buf q2)[nat (rq_tail q2) := e],
                 rq_tail := (rq_tail q2 + 1) AND (int (length (rq_buf q2)) - 1),
                 rq_count := rq_count q2 + 1\<rparr>"
  note S = rq_store(1)[OF i2 c2, where e = e] rq_store(2)[OF i2 c2, where e = e] rq_store(3)[OF i2 c2]
  have ix: "index (rq_buf q2) (rq_tail q2) = Inr (rq_buf q2 ! nat (rq_tail q2))"
    using S(3) by (simp add: index_def)
  have "rq_Push z e q = (Return (), ?q5\<lparr>rq_lock := rq_lock q\<rparr>)"
    unfolding rq_Push_def lk option.case Let_def r sum.case ix
    by (simp add: l2 ul)
  moreover have "rq_inv (?q5\<lparr>rq_lock := rq_lock q\<rparr>)" using S(1) by simp
  moreover have "rq_elems (?q5\<lparr>rq_lock := rq_lock q\<rparr>) = rq_elems q @ [e]"
    using S(2) e2 by simp
  moreover have "length (rq_buf (?q5\<lparr>rq_lock := rq_lock q\<rparr>))
                 = (if rq_count q = int ?n then 2 * nat (rq_count q) else ?n)"
    using n2 by simp
  ultimately show ?thesis by (intro exI[of _ "?q5\<lparr>rq_lock := rq_lock q\<rparr>"]) simp
qed

lemma rq_Pop_empty:
  assumes "rq_count q \<le> 0" "unlocked (rq_lock q)"
  shows "rq_Pop z q = (Return (z, False), q)"
  using assms by (simp add: rq_Pop_def rq_lock_defs)

lemma rq_advance:
  fixes q :: "'a Queue"
  assumes "rq_inv q" "0 < rq_count q"
  defines "q' \<equiv> q\<lparr>rq_head := (rq_head q + 1) AND (int (length (rq_buf q)) - 1),
                    rq_count := rq_count q - 1\<rparr>"
  shows "rq_inv q'" and "rq_elems q' = tl (rq_elems q)"
    and "index (rq_buf q) (rq_head q) = Inr (hd (rq_elems q))"
proof -
  let ?n = "length (rq_buf q)"
  have p2: "is_pow2 ?n" and mn: "minQueueLen \<le> int ?n" and h0: "0 \<le> rq_head q"
    and hn': "rq_head q < int ?n" and cn': "rq_count q \<le> int ?n"
    and t: "rq_tail q = (rq_head q + rq_count q) mod int ?n"
    using assms(1) by (simp_all add: rq_inv_def)
  obtain h where h: "rq_head q = int h" using h0 nonneg_int_cases by blast
  obtain c0 where c0: "rq_count q = int c0"
    using assms(2) nonneg_int_cases[of "rq_count q"] by auto
  then obtain c where "c0 = Suc c" using assms(2) by (cases c0) simp_all
  then have c: "rq_count q = int (Suc c)" using c0 by simp
  have hn: "h < ?n" and cn: "Suc c \<le> ?n" using hn' cn' h c by simp_all
  have npos: "0 < ?n" using hn by linarith
  have hd': "(rq_head q + 1) AND (int ?n - 1) = int (Suc h mod ?n)"
    unfolding and_mask_mod[OF p2] h by (simp add: zmod_int add.commute)
  have tl': "rq_tail q = (int (Suc h mod ?n) + int c) mod int ?n"
    unfolding t h c by (simp add: zmod_int mod_simps ac_simps)
  have q'h: "rq_head q' = int (Suc h mod ?n)" and q'c: "rq_count q' = int c"
    and q'b: "rq_buf q' = rq_buf q" and q't: "rq_tail q' = rq_tail q"
    unfolding q'_def by (simp_all add: hd' c)
  show "rq_inv q'"
    unfolding rq_inv_def q'h q'c q'b q't using p2 mn cn npos tl' by simp
  have r: "ring (rq_buf q) h (Suc c) = rq_buf q ! (h mod ?n) # ring (rq_buf q) (Suc h mod ?n) (Suc c - 1)"
    using npos by (intro ring_Cons) simp_all
  have e: "rq_elems q = ring (rq_buf q) h (Suc c)" using rq_elems_ring[OF h0] unfolding h c nat_int .
  have "rq_elems q' = ring (rq_buf q) (Suc h mod ?n) c"
    using rq_elems_ring[of q'] by (simp add: q'h q'c q'b)
  then show "rq_elems q' = tl (rq_elems q)" unfolding e r by simp
  show "index (rq_buf q) (rq_head q) = Inr (hd (rq_elems q))"
    unfolding e r h using hn by (simp add: index_def)
qed

lemma rq_Pop_ok:
  assumes "rq_inv q" "unlocked (rq_lock q)" "0 < rq_count q"
  shows "\<exists>q'. rq_Pop z q = (Return (hd (rq_elems q), True), q') \<and> rq_inv q'
           \<and> rq_elems q' = tl (rq_elems q) \<and> rq_lock q' = rq_lock q
           \<and> length (rq_buf q')
               = (if int (length (rq_buf q)) > minQueueLen
                     \<and> 4 * (rq_count q - 1) = int (length (rq_buf q))
                  then 2 * nat (rq_count q - 1) else length (rq_buf q))"
proof -
  let ?n = "length (rq_buf q)"
  let ?l = "(rq_lock q)\<lparr>writer := True\<rparr>"
  let ?q1 = "q\<lparr>rq_lock := ?l\<rparr>"
  let ?q2 = "?q1\<lparr>rq_head := (rq_head ?q1 + 1) AND (int (length (rq_buf ?q1)) - 1)\<rparr>"
  let ?q3 = "?q2\<lparr>rq_count := rq_count ?q2 - 1\<rparr>"
  have eq3: "?q3 = ?q1\<lparr>rq_head := (rq_head ?q1 + 1) AND (int (length (rq_buf ?q1)) - 1),
                  rq_count := rq_count ?q1 - 1\<rparr>" by simp
  have lk: "Lock (rq_lock q) = Some ?l" using assms(2) by (simp add: rq_lock_defs)
  have ul: "Unlock ?l = Inr (rq_lock q)" using assms(2) by (simp add: rq_lock_defs)
  have i1: "rq_inv ?q1" using assms(1) by simp
  have c1: "0 < rq_count ?q1" using assms(3) by simp
  note A = rq_advance[OF i1 c1]
  have i3: "rq_inv ?q3" unfolding eq3 by (rule A(1))
  have e3: "rq_elems ?q3 = tl (rq_elems q)" unfolding eq3 using A(2) by simp
  have ix: "index (rq_buf ?q1) (rq_head ?q1) = Inr (hd (rq_elems q))" using A(3) by simp
  have p2: "is_pow2 ?n" using assms(1) by (simp add: rq_inv_def)
  let ?shrink = "int ?n > minQueueLen \<and> 4 * (rq_count q - 1) = int ?n"
  have cond: "(int (length (rq_buf ?q3)) > minQueueLen
               \<and> push_bit 2 (rq_count ?q3) = int (length (rq_buf ?q3))) = ?shrink"
    by (simp add: push_bit_eq_mult mult.commute)
  obtain q4 where
    r: "(if int (length (rq_buf ?q3)) > minQueueLen
            \<and> push_bit 2 (rq_count ?q3) = int (length (rq_buf ?q3))
         then rq_resize z ?q3 else Inr ?q3) = Inr q4"
    and i4: "rq_inv q4" and e4: "rq_elems q4 = tl (rq_elems q)" and l4: "rq_lock q4 = ?l"
    and n4: "length (rq_buf q4) = (if ?shrink then 2 * nat (rq_count q - 1) else ?n)"
  proof (cases ?shrink)
    case True
    let ?q4 = "?q3\<lparr>rq_head := 0, rq_tail := rq_count ?q3,
                  rq_buf := rq_elems ?q3 @ replicate (nat (rq_count ?q3)) z\<rparr>"
    have b: "0 \<le> rq_head ?q3" "rq_head ?q3 < int (length (rq_buf ?q3))"
      "0 \<le> rq_count ?q3" "rq_count ?q3 \<le> int (length (rq_buf ?q3))"
      "rq_tail ?q3 = (rq_head ?q3 + rq_count ?q3) mod int (length (rq_buf ?q3))"
      using i3 unfolding rq_inv_def by blast+
    have rs: "rq_resize z ?q3 = Inr ?q4" by (rule rq_resize_ok[OF b])
    have n32: "32 \<le> ?n" using True p2 by (intro is_pow2_gt16) (simp_all add: minQueueLen_def)
    have c4: "4 * (rq_count q - 1) = int ?n" using True by simp
    have pos: "0 < rq_count ?q3" using c4 n32 by simp
    have half: "2 * nat (rq_count ?q3) = ?n div 2" using c4 by simp
    have pw: "is_pow2 (2 * nat (rq_count ?q3))"
      unfolding half using p2 n32 by (intro is_pow2_half) simp_all
    have m2: "minQueueLen \<le> 2 * rq_count ?q3" using c4 n32 by (simp add: minQueueLen_def)
    note R = rq_resized[OF pos pw m2, where z = z]
    show ?thesis
    proof (rule that[of ?q4])
      have "int (length (rq_buf ?q3)) > minQueueLen
            \<and> push_bit 2 (rq_count ?q3) = int (length (rq_buf ?q3))"
        using cond True by blast
      then show "(if int (length (rq_buf ?q3)) > minQueueLen
            \<and> push_bit 2 (rq_count ?q3) = int (length (rq_buf ?q3))
         then rq_resize z ?q3 else Inr ?q3) = Inr ?q4"
        unfolding rs by (rule if_P)
      show "rq_inv ?q4" by (rule R(1))
      show "rq_elems ?q4 = tl (rq_elems q)" using R(2) e3 by simp
      show "rq_lock ?q4 = ?l" by simp
      show "length (rq_buf ?q4) = (if ?shrink then 2 * nat (rq_count q - 1) else ?n)"
        using R(3) True by simp
    qed
  next
    case False
    show ?thesis
    proof (rule that[of ?q3])
      have "\<not> (int (length (rq_buf ?q3)) > minQueueLen
            \<and> push_bit 2 (rq_count ?q3) = int (length (rq_buf ?q3)))"
        using cond False by blast
      then show "(if int (length (rq_buf ?q3)) > minQueueLen
            \<and> push_bit 2 (rq_count ?q3) = int (length (rq_buf ?q3))
         then rq_resize z ?q3 else Inr ?q3) = Inr ?q3"
        by (rule if_not_P)
      show "rq_inv ?q3" by (rule i3)
      show "rq_elems ?q3 = tl (rq_elems q)" by (rule e3)
      show "rq_lock ?q3 = ?l" by simp
      show "length (rq_buf ?q3) = (if ?shrink then 2 * nat (rq_count q - 1) else ?n)"
        unfolding if_not_P[OF False] by simp
    qed
  qed
  have nz: "\<not> rq_count ?q1 \<le> 0" using assms(3) by simp
  have "rq_Pop z q = (Return (hd (rq_elems q), True), q4\<lparr>rq_lock := rq_lock q\<rparr>)"
    unfolding rq_Pop_def lk option.case Let_def if_not_P[OF nz] ix sum.case r
    by (simp add: l4 ul)
  moreover have "rq_inv (q4\<lparr>rq_lock := rq_lock q\<rparr>)" using i4 by simp
  moreover have "rq_elems (q4\<lparr>rq_lock := rq_lock q\<rparr>) = tl (rq_elems q)" using e4 by simp
  moreover have "length (rq_buf (q4\<lparr>rq_lock := rq_lock q\<rparr>))
                 = (if ?shrink then 2 * nat (rq_count q - 1) else ?n)"
    using n4 by simp
  ultimately show ?thesis by (intro exI[of _ "q4\<lparr>rq_lock := rq_lock q\<rparr>"]) simp
qed

lemma rq_resize_elems:
  assumes "rq_inv q"
  shows "\<exists>q'. rq_resize z q = Inr q' \<and> rq_elems q' = rq_elems q
               \<and> length (rq_buf q') = 2 * nat (rq_count q)"
proof -
  let ?q' = "q\<lparr>rq_head := 0, rq_tail := rq_count q,
                  rq_buf := rq_elems q @ replicate (nat (rq_count q)) z\<rparr>"
  have b: "0 \<le> rq_head q" "rq_head q < int (length (rq_buf q))"
      "0 \<le> rq_count q" "rq_count q \<le> int (length (rq_buf q))"
      "rq_tail q = (rq_head q + rq_count q) mod int (length (rq_buf q))"
    using assms unfolding rq_inv_def by blast+
  have rs: "rq_resize z q = Inr ?q'" by (rule rq_resize_ok[OF b])
  have len: "length (rq_buf ?q') = 2 * nat (rq_count q)" by (simp add: length_rq_elems)
  have "rq_elems ?q' = ring (rq_buf ?q') 0 (nat (rq_count q))"
    using rq_elems_ring[of ?q'] by simp
  also have "\<dots> = take (nat (rq_count q)) (drop 0 (rq_buf ?q'))"
    using len by (intro ring_nowrap) simp
  also have "\<dots> = rq_elems q" by (simp add: length_rq_elems)
  finally have "rq_elems ?q' = rq_elems q" .
  then show ?thesis using rs len by blast
qed

text \<open>
  C7. On a queue that satisfies the invariant, with the lock free: \<open>Push\<close> returns with
  the element appended; the buffer then has twice the number of elements the queue had
  if it was full (count equal to the length of the buffer), and its old length if not.
  \<open>Pop\<close> on a non-empty queue returns the oldest element and removes it; the buffer then
  has twice the number of elements left if its length was more than \<open>minQueueLen\<close> and
  four times that number (which is half its old length), and its old length if not.
  \<open>resize\<close> itself keeps the elements and their order.
\<close>

theorem rq_doubling_halving:
  assumes "rq_inv q" "unlocked (rq_lock q)"
  shows "(\<exists>q'. rq_Push z e q = (Return (), q') \<and> rq_elems q' = rq_elems q @ [e]
            \<and> length (rq_buf q')
                = (if rq_count q = int (length (rq_buf q)) then 2 * nat (rq_count q)
                   else length (rq_buf q)))
    \<and> (0 < rq_count q \<longrightarrow>
         (\<exists>q'. rq_Pop z q = (Return (hd (rq_elems q), True), q')
            \<and> rq_elems q' = tl (rq_elems q)
            \<and> length (rq_buf q')
                = (if int (length (rq_buf q)) > minQueueLen
                      \<and> 4 * (rq_count q - 1) = int (length (rq_buf q))
                   then 2 * nat (rq_count q - 1) else length (rq_buf q))
            \<and> (int (length (rq_buf q)) > minQueueLen
                  \<and> 4 * (rq_count q - 1) = int (length (rq_buf q))
                \<longrightarrow> 2 * length (rq_buf q') = length (rq_buf q))))
    \<and> (\<exists>q'. rq_resize z q = Inr q' \<and> rq_elems q' = rq_elems q
            \<and> length (rq_buf q') = 2 * nat (rq_count q))"
proof (intro conjI impI)
  show "\<exists>q'. rq_Push z e q = (Return (), q') \<and> rq_elems q' = rq_elems q @ [e]
            \<and> length (rq_buf q')
                = (if rq_count q = int (length (rq_buf q)) then 2 * nat (rq_count q)
                   else length (rq_buf q))"
    using rq_Push_ok[OF assms, of z e] by blast
  show "\<exists>q'. rq_resize z q = Inr q' \<and> rq_elems q' = rq_elems q
            \<and> length (rq_buf q') = 2 * nat (rq_count q)"
    by (rule rq_resize_elems[OF assms(1)])
  assume pos: "0 < rq_count q"
  let ?shrink = "int (length (rq_buf q)) > minQueueLen
                      \<and> 4 * (rq_count q - 1) = int (length (rq_buf q))"
  from rq_Pop_ok[OF assms pos, of z]
  obtain q' where p: "rq_Pop z q = (Return (hd (rq_elems q), True), q')"
    and e: "rq_elems q' = tl (rq_elems q)"
    and n: "length (rq_buf q') = (if ?shrink then 2 * nat (rq_count q - 1) else length (rq_buf q))"
    by blast
  have "2 * length (rq_buf q') = length (rq_buf q)" if s: ?shrink
  proof -
    have "length (rq_buf q') = 2 * nat (rq_count q - 1)" using n s by simp
    then have "int (2 * length (rq_buf q')) = int (length (rq_buf q))" using s pos by simp
    then show ?thesis by (simp only: of_nat_eq_iff)
  qed
  then show "\<exists>q'. rq_Pop z q = (Return (hd (rq_elems q), True), q')
            \<and> rq_elems q' = tl (rq_elems q)
            \<and> length (rq_buf q')
                = (if ?shrink then 2 * nat (rq_count q - 1) else length (rq_buf q))
            \<and> (?shrink \<longrightarrow> 2 * length (rq_buf q') = length (rq_buf q))"
    using p e n by blast
qed

lemma is_pow2_16: "is_pow2 16"
  by (simp add: is_pow2.simps)

lemma rq_inv_NewQueue: "rq_inv (rq_NewQueue z)"
  by (simp add: rq_inv_def rq_NewQueue_def minQueueLen_def is_pow2_16)

theorem rq_doubling_halving_witness:
  "rq_inv \<lparr>rq_buf = replicate 16 (1::int), rq_head = 3, rq_tail = 3, rq_count = 16,
           rq_lock = \<lparr>readers = 0, writer = False\<rparr>\<rparr>
   \<and> unlocked \<lparr>readers = 0, writer = False\<rparr>
   \<and> (\<exists>q'. rq_Push 0 7 \<lparr>rq_buf = replicate 16 (1::int), rq_head = 3, rq_tail = 3, rq_count = 16,
                          rq_lock = \<lparr>readers = 0, writer = False\<rparr>\<rparr> = (Return (), q')
           \<and> length (rq_buf q') = 32)
   \<and> (\<exists>q'. rq_Pop 0 \<lparr>rq_buf = replicate 16 (1::int), rq_head = 3, rq_tail = 3, rq_count = 16,
                         rq_lock = \<lparr>readers = 0, writer = False\<rparr>\<rparr>
               = (Return (hd (replicate 16 1), True), q')
           \<and> length (rq_buf q') = 16)"
proof -
  let ?q = "\<lparr>rq_buf = replicate 16 (1::int), rq_head = 3, rq_tail = 3, rq_count = 16,
            rq_lock = \<lparr>readers = 0, writer = False\<rparr>\<rparr>"
  have i: "rq_inv ?q" by (simp add: rq_inv_def minQueueLen_def is_pow2_16)
  have u: "unlocked (rq_lock ?q)" by (simp add: unlocked_def)
  have p: "0 < rq_count ?q" by simp
  have e: "rq_elems ?q = replicate 16 1"
    by (rule nth_equalityI) (simp_all add: rq_elems_def)
  note T = rq_doubling_halving[OF i u, of 0 7]
  obtain q1 where q1: "rq_Push 0 7 ?q = (Return (), q1)" and l1: "length (rq_buf q1) = 32"
    using T by auto
  obtain q2 where q2: "rq_Pop 0 ?q = (Return (hd (replicate 16 1), True), q2)"
    and l2: "length (rq_buf q2) = 16"
    using T p unfolding e by (auto simp: minQueueLen_def)
  show ?thesis using i u q1 l1 q2 l2 by simp
qed

subsection \<open>The invariant of the ring\<close>

lemma Lock_cases: "Lock m = None \<or> unlocked m"
  by (simp add: rq_lock_defs)

lemma rq_Push_inv:
  assumes "rq_inv q"
  shows "rq_inv (snd (rq_Push z e q))"
proof -
  from Lock_cases[of "rq_lock q"] show ?thesis
  proof
    assume "Lock (rq_lock q) = None"
    then show ?thesis using assms by (simp add: rq_Push_def)
  next
    assume "unlocked (rq_lock q)"
    then show ?thesis using rq_Push_ok[OF assms, of z e] by auto
  qed
qed

lemma rq_Pop_inv:
  assumes "rq_inv q"
  shows "rq_inv (snd (rq_Pop z q))"
proof -
  from Lock_cases[of "rq_lock q"] show ?thesis
  proof
    assume "Lock (rq_lock q) = None"
    then show ?thesis using assms by (simp add: rq_Pop_def)
  next
    assume u: "unlocked (rq_lock q)"
    show ?thesis
    proof (cases "0 < rq_count q")
      case True
      then show ?thesis using rq_Pop_ok[OF assms u, of z] by auto
    next
      case False
      then show ?thesis using rq_Pop_empty[of q z] u assms by simp
    qed
  qed
qed

lemma rq_Size_inv: "rq_inv (snd (rq_Size q)) = rq_inv q"
  by (simp add: rq_Size_def rq_lock_defs Let_def)

lemma rq_Empty_inv: "rq_inv (snd (rq_Empty q)) = rq_inv q"
proof -
  have "snd (rq_Empty q) = snd (rq_Size q)"
    by (cases "rq_Size q"; cases "fst (rq_Size q)") (simp_all add: rq_Empty_def)
  then show ?thesis by (simp add: rq_Size_inv)
qed

lemma rq_Peek_inv: "rq_inv (snd (rq_Peek q)) = rq_inv q"
  by (simp add: rq_Peek_def rq_lock_defs Let_def split: sum.splits)

lemma rq_Get_inv: "rq_inv (snd (rq_Get i q)) = rq_inv q"
  by (simp add: rq_Get_def rq_lock_defs Let_def split: sum.splits)

lemma rq_Index_inv: "rq_inv (snd (rq_Index v q)) = rq_inv q"
  by (simp add: rq_Index_def rq_lock_defs Let_def split: sum.splits prod.splits)

text \<open>
  C9. The queue that \<open>NewQueue\<close> returns satisfies the invariant and every operation
  preserves it, whatever the state of the lock and however the call ends. Under the
  invariant the length of the buffer is a power of two, at least 16, \<open>count\<close> is between
  0 and that length, and \<open>x & (len(buf) - 1)\<close> is \<open>x mod len(buf)\<close>.
\<close>

theorem rq_inv_preserved:
  "rq_inv (rq_NewQueue z)
   \<and> (rq_inv q \<longrightarrow>
         rq_inv (snd (rq_Size q)) \<and> rq_inv (snd (rq_Empty q)) \<and> rq_inv (snd (rq_Push z e q))
         \<and> rq_inv (snd (rq_Pop z q)) \<and> rq_inv (snd (rq_Peek q)) \<and> rq_inv (snd (rq_Get i q))
         \<and> rq_inv (snd (rq_Index v q)))
   \<and> (rq_inv q \<longrightarrow>
         (\<exists>k. length (rq_buf q) = 2 ^ k) \<and> minQueueLen \<le> int (length (rq_buf q))
         \<and> 0 \<le> rq_count q \<and> rq_count q \<le> int (length (rq_buf q))
         \<and> (\<forall>x. x AND (int (length (rq_buf q)) - 1) = x mod int (length (rq_buf q))))"
proof (intro conjI impI allI)
  show "rq_inv (rq_NewQueue z)" by (rule rq_inv_NewQueue)
next
  assume "rq_inv q" then show "rq_inv (snd (rq_Size q))" by (simp add: rq_Size_inv)
next
  assume "rq_inv q" then show "rq_inv (snd (rq_Empty q))" by (simp add: rq_Empty_inv)
next
  assume "rq_inv q" then show "rq_inv (snd (rq_Push z e q))" by (rule rq_Push_inv)
next
  assume "rq_inv q" then show "rq_inv (snd (rq_Pop z q))" by (rule rq_Pop_inv)
next
  assume "rq_inv q" then show "rq_inv (snd (rq_Peek q))" by (simp add: rq_Peek_inv)
next
  assume "rq_inv q" then show "rq_inv (snd (rq_Get i q))" by (simp add: rq_Get_inv)
next
  assume "rq_inv q" then show "rq_inv (snd (rq_Index v q))" by (simp add: rq_Index_inv)
next
  assume "rq_inv q" then show "\<exists>k. length (rq_buf q) = 2 ^ k"
    using is_pow2_exp by (simp add: rq_inv_def)
next
  assume "rq_inv q" then show "minQueueLen \<le> int (length (rq_buf q))" by (simp add: rq_inv_def)
next
  assume "rq_inv q" then show "0 \<le> rq_count q" by (simp add: rq_inv_def)
next
  assume "rq_inv q" then show "rq_count q \<le> int (length (rq_buf q))" by (simp add: rq_inv_def)
next
  fix x assume "rq_inv q"
  then have "is_pow2 (length (rq_buf q))" by (simp add: rq_inv_def)
  then show "x AND (int (length (rq_buf q)) - 1) = x mod int (length (rq_buf q))"
    by (rule and_mask_mod)
qed

theorem rq_inv_preserved_witness:
  "rq_inv (rq_NewQueue (0::int))
   \<and> rq_inv (snd (rq_Push 0 7 (rq_NewQueue (0::int))))
   \<and> rq_inv (snd (rq_Pop 0 (rq_NewQueue (0::int))))
   \<and> rq_inv (snd (rq_Index 7 (rq_NewQueue (0::int))))
   \<and> (21::int) AND (int (length (rq_buf (rq_NewQueue (0::int)))) - 1)
       = 21 mod int (length (rq_buf (rq_NewQueue (0::int))))"
  using rq_inv_preserved[of "0::int" "rq_NewQueue 0" 7 0 7] by blast

(*THMS*)

end
